theory Spec2Isabelle
  imports
    Complex_Main
    "HOL-Library.Word"
    "HOL-Library.Signed_Division"
    "HOL-Library.Monad_Syntax"
begin

unbundle bit_operations_syntax

section \<open>The RC5/RC6 engine of rc6.c, built with WORD_SZ = 64\<close>

text \<open>
  The file is compiled with \<^verbatim>\<open>#define WORD_SZ 64\<close>, so \<^verbatim>\<open>WORD\<close> is
  \<^verbatim>\<open>uint64_t\<close>: a 64-bit word whose \<open>+\<close>, \<open>-\<close> and \<open>*\<close> wrap around.
  C's \<^verbatim>\<open>int\<close> values (\<open>w\<close>, \<open>r\<close>, \<open>b\<close>, loop counters, indices) are modelled
  as \<open>int\<close>; the source's \<^verbatim>\<open>/\<close> and \<^verbatim>\<open>%\<close> on them truncate towards zero
  and are written \<open>sdiv\<close> and \<open>smod\<close>. The products \<^verbatim>\<open>2*r+2\<close> and
  \<^verbatim>\<open>2*r+4\<close> are taken in \<open>int\<close> without a 32-bit limit.
\<close>

type_synonym WORD = "64 word"
type_synonym byte = "8 word"

definition WORD_SZ :: int where
  "WORD_SZ = 64"

definition sizeof_WORD :: int where
  "sizeof_WORD = 8"

definition LGW :: int where
  "LGW = 6"

definition P :: WORD where
  "P = 0xb7e151628aed2a6b"

definition Q :: WORD where
  "Q = 0x9e3779b97f4a7c15"

subsection \<open>Host byte order\<close>

text \<open>
  The source reads and writes key, plaintext and ciphertext through \<^verbatim>\<open>WORD *\<close>
  and \<^verbatim>\<open>char *\<close> views of the same memory, and asks the host for its byte order
  through a union. The host is a parameter of the model: \<open>object_rep h n x\<close> is the
  sequence of the \<open>n\<close> bytes that hold the integer object \<open>x\<close> in the memory of host
  \<open>h\<close>, lowest address first, and \<open>object_val h bs\<close> is the value such bytes hold.
\<close>

datatype host = LittleEndian | BigEndian

fun bytes_le :: "nat \<Rightarrow> 'a::len word \<Rightarrow> byte list" where
  "bytes_le 0 x = []"
| "bytes_le (Suc n) x = ucast x # bytes_le n (drop_bit 8 x)"

fun word_le :: "byte list \<Rightarrow> 'a::len word" where
  "word_le [] = 0"
| "word_le (c # cs) = ucast c OR push_bit 8 (word_le cs)"

definition object_rep :: "host \<Rightarrow> nat \<Rightarrow> 'a::len word \<Rightarrow> byte list" where
  "object_rep h n x =
     (case h of LittleEndian \<Rightarrow> bytes_le n x | BigEndian \<Rightarrow> rev (bytes_le n x))"

definition object_val :: "host \<Rightarrow> byte list \<Rightarrow> 'a::len word" where
  "object_val h bs =
     (case h of LittleEndian \<Rightarrow> word_le bs | BigEndian \<Rightarrow> word_le (rev bs))"

text \<open>
  \<^verbatim>\<open>__builtin_bswap64(x)\<close>: \<open>x\<close> with the order of its eight bytes reversed.
\<close>

definition bswap :: "WORD \<Rightarrow> WORD" where
  "bswap x = word_le (rev (bytes_le 8 x))"

text \<open>
  \<^verbatim>\<open>const union { unsigned x; unsigned char endian; } little = { 1 };\<close>
  \<^verbatim>\<open>return (little.endian ? x : bswap(x));\<close>
  The union's \<open>endian\<close> member is the byte at the lowest address of the 4-byte
  \<^verbatim>\<open>unsigned\<close> object holding 1.
\<close>

definition bswap_if_be :: "host \<Rightarrow> WORD \<Rightarrow> WORD" where
  "bswap_if_be h x =
     (let endian = hd (object_rep h 4 (1 :: 32 word))
      in if endian \<noteq> 0 then x else bswap x)"

subsection \<open>Primitives\<close>

text \<open>\<^verbatim>\<open>static int max(int a, int b) { return (a>b ? a : b); }\<close>\<close>

definition max_c :: "int \<Rightarrow> int \<Rightarrow> int" where
  "max_c a b = (if a > b then a else b)"

text \<open>
  \<^verbatim>\<open>rotl(x,d) = (x<<d)|(x>>(WORD_SZ-d))\<close> and
  \<^verbatim>\<open>rotr(x,d) = (x>>d)|(x<<(WORD_SZ-d))\<close>, called with \<open>0 \<le> d < 64\<close> only.
  For \<open>d = 0\<close> the second shift is by the full width of the word; the model gives
  such a shift its arithmetic value 0, so that both functions return \<open>x\<close> there.
\<close>

definition rotl :: "WORD \<Rightarrow> int \<Rightarrow> WORD" where
  "rotl x d = push_bit (nat d) x OR drop_bit (nat (WORD_SZ - d)) x"

definition rotr :: "WORD \<Rightarrow> int \<Rightarrow> WORD" where
  "rotr x d = drop_bit (nat d) x OR push_bit (nat (WORD_SZ - d)) x"

subsection \<open>The expanded key table in the caller's memory\<close>

text \<open>
  \<^verbatim>\<open>rkey\<close> points to an array of \<^verbatim>\<open>WORD\<close>s owned by the caller. The model keeps
  its words in \<open>cells\<close> and records every index the code dereferences in \<open>reads\<close> and
  \<open>writes\<close>, in program order. An access outside the array is undefined behaviour in
  C; in the model it yields \<open>None\<close>, and so does every function that performs one.
\<close>

record table =
  cells :: "WORD list"
  reads :: "int list"
  writes :: "int list"

definition rd :: "table \<Rightarrow> int \<Rightarrow> (WORD \<times> table) option" where
  "rd m i =
     (if 0 \<le> i \<and> i < int (length (cells m))
      then Some (cells m ! nat i, m\<lparr>reads := reads m @ [i]\<rparr>)
      else None)"

definition wr :: "table \<Rightarrow> int \<Rightarrow> WORD \<Rightarrow> table option" where
  "wr m i v =
     (if 0 \<le> i \<and> i < int (length (cells m))
      then Some (m\<lparr>cells := (cells m)[nat i := v], writes := writes m @ [i]\<rparr>)
      else None)"

text \<open>
  \<^verbatim>\<open>for (i=0; i<n; i++) body\<close> where the body neither reads nor changes \<open>i\<close>:
  the body runs \<open>n\<close> times, and not at all when \<open>n \<le> 0\<close>.
\<close>

fun loop :: "nat \<Rightarrow> ('s \<Rightarrow> 's option) \<Rightarrow> 's \<Rightarrow> 's option" where
  "loop 0 body s = Some s"
| "loop (Suc n) body s = body s \<bind> loop n body"

subsection \<open>RC5\<close>

text \<open>
  The state of the round loops: the registers \<open>A\<close>, \<open>B\<close>, the index the pointer
  \<^verbatim>\<open>S\<close> has reached in the table, and the table. Each \<^verbatim>\<open>*(S++)\<close> reads at the
  pointer and then advances it; each \<^verbatim>\<open>*(S--)\<close> reads and then steps back.
  A block is the pair of host words \<^verbatim>\<open>p[0]\<close>, \<^verbatim>\<open>p[1]\<close>; the parameter
  \<open>w\<close> is accepted and ignored, as in the source.
\<close>

type_synonym rc5_state = "WORD \<times> WORD \<times> int \<times> table"

definition rc5_encrypt_round :: "rc5_state \<Rightarrow> rc5_state option" where
  "rc5_encrypt_round = (\<lambda>(A, B, S, m). do {
     (k, m) \<leftarrow> rd m S;
     let A = rotl (A XOR B) (uint (B mod 64)) + k;
     (k', m) \<leftarrow> rd m (S + 1);
     let B = rotl (B XOR A) (uint (A mod 64)) + k';
     Some (A, B, S + 2, m) })"

fun rc5_encrypt ::
  "host \<Rightarrow> table \<Rightarrow> int \<Rightarrow> int \<Rightarrow> WORD \<times> WORD \<Rightarrow> ((WORD \<times> WORD) \<times> table) option" where
  "rc5_encrypt h rkey w r (p0, p1) = do {
     let S = 0;
     (k, m) \<leftarrow> rd rkey S;
     let A = bswap_if_be h p0 + k;
     (k', m) \<leftarrow> rd m (S + 1);
     let B = bswap_if_be h p1 + k';
     (A, B, S, m) \<leftarrow> loop (nat (r sdiv 4)) (loop 4 rc5_encrypt_round) (A, B, S + 2, m);
     Some ((bswap_if_be h A, bswap_if_be h B), m) }"

declare rc5_encrypt.simps [simp del]

definition rc5_decrypt_round :: "rc5_state \<Rightarrow> rc5_state option" where
  "rc5_decrypt_round = (\<lambda>(A, B, S, m). do {
     (k, m) \<leftarrow> rd m S;
     let B = rotr (B - k) (uint (A mod 64)) XOR A;
     (k', m) \<leftarrow> rd m (S - 1);
     let A = rotr (A - k') (uint (B mod 64)) XOR B;
     Some (A, B, S - 2, m) })"

fun rc5_decrypt ::
  "host \<Rightarrow> table \<Rightarrow> int \<Rightarrow> int \<Rightarrow> WORD \<times> WORD \<Rightarrow> ((WORD \<times> WORD) \<times> table) option" where
  "rc5_decrypt h rkey w r (c0, c1) = do {
     let S = 2 * r + 1;
     let B = bswap_if_be h c1;
     let A = bswap_if_be h c0;
     (A, B, S, m) \<leftarrow> loop (nat (r sdiv 4)) (loop 4 rc5_decrypt_round) (A, B, S, rkey);
     (k, m) \<leftarrow> rd m S;
     let p1 = bswap_if_be h (B - k);
     (k', m) \<leftarrow> rd m (S - 1);
     let p0 = bswap_if_be h (A - k');
     Some ((p0, p1), m) }"

declare rc5_decrypt.simps [simp del]

subsection \<open>RC6\<close>

type_synonym rc6_state = "WORD \<times> WORD \<times> WORD \<times> WORD \<times> int \<times> table"

definition rc6_encrypt_round :: "rc6_state \<Rightarrow> rc6_state option" where
  "rc6_encrypt_round = (\<lambda>(A, B, C, D, S, m). do {
     let t = rotl (B * (2 * B + 1)) LGW;
     let u = rotl (D * (2 * D + 1)) LGW;
     (k, m) \<leftarrow> rd m S;
     let A = rotl (A XOR t) (uint (u mod 64)) + k;
     (k', m) \<leftarrow> rd m (S + 1);
     let C = rotl (C XOR u) (uint (t mod 64)) + k';
     let (t, A, B, C, D) = (A, B, C, D, A);
     Some (A, B, C, D, S + 2, m) })"

fun rc6_encrypt ::
  "host \<Rightarrow> table \<Rightarrow> int \<Rightarrow> int \<Rightarrow> WORD \<times> WORD \<times> WORD \<times> WORD \<Rightarrow>
   ((WORD \<times> WORD \<times> WORD \<times> WORD) \<times> table) option" where
  "rc6_encrypt h rkey w r (p0, p1, p2, p3) = do {
     let S = 0;
     let A = bswap_if_be h p0;
     (k, m) \<leftarrow> rd rkey S;
     let B = bswap_if_be h p1 + k;
     let C = bswap_if_be h p2;
     (k', m) \<leftarrow> rd m (S + 1);
     let D = bswap_if_be h p3 + k';
     (A, B, C, D, S, m) \<leftarrow>
       loop (nat (r sdiv 4)) (loop 4 rc6_encrypt_round) (A, B, C, D, S + 2, m);
     (k, m) \<leftarrow> rd m S;
     let c0 = bswap_if_be h (A + k);
     let c1 = bswap_if_be h B;
     (k', m) \<leftarrow> rd m (S + 1);
     let c2 = bswap_if_be h (C + k');
     let c3 = bswap_if_be h D;
     Some ((c0, c1, c2, c3), m) }"

declare rc6_encrypt.simps [simp del]

definition rc6_decrypt_round :: "rc6_state \<Rightarrow> rc6_state option" where
  "rc6_decrypt_round = (\<lambda>(A, B, C, D, S, m). do {
     let (t, D, C, B, A) = (D, C, B, A, D);
     let u = rotl (D * (2 * D + 1)) LGW;
     let t = rotl (B * (2 * B + 1)) LGW;
     (k, m) \<leftarrow> rd m S;
     let C = rotr (C - k) (uint (t mod 64)) XOR u;
     (k', m) \<leftarrow> rd m (S - 1);
     let A = rotr (A - k') (uint (u mod 64)) XOR t;
     Some (A, B, C, D, S - 2, m) })"

fun rc6_decrypt ::
  "host \<Rightarrow> table \<Rightarrow> int \<Rightarrow> int \<Rightarrow> WORD \<times> WORD \<times> WORD \<times> WORD \<Rightarrow>
   ((WORD \<times> WORD \<times> WORD \<times> WORD) \<times> table) option" where
  "rc6_decrypt h rkey w r (c0, c1, c2, c3) = do {
     let S = 2 * r + 3;
     let D = bswap_if_be h c3;
     (k, m) \<leftarrow> rd rkey S;
     let C = bswap_if_be h c2 - k;
     let B = bswap_if_be h c1;
     (k', m) \<leftarrow> rd m (S - 1);
     let A = bswap_if_be h c0 - k';
     (A, B, C, D, S, m) \<leftarrow>
       loop (nat (r sdiv 4)) (loop 4 rc6_decrypt_round) (A, B, C, D, S - 2, m);
     (k, m) \<leftarrow> rd m S;
     let p3 = bswap_if_be h (D - k);
     let p2 = bswap_if_be h C;
     (k', m) \<leftarrow> rd m (S - 1);
     let p1 = bswap_if_be h (B - k');
     let p0 = bswap_if_be h A;
     Some ((p0, p1, p2, p3), m) }"

declare rc6_decrypt.simps [simp del]

subsection \<open>Key schedule\<close>

text \<open>
  \<^verbatim>\<open>WORD L[256/sizeof(WORD)]\<close> is a local array of 32 words that starts
  uninitialised: its first contents are a parameter \<open>junk\<close> of the model. The array is
  written through \<^verbatim>\<open>(char *)L\<close> and read through \<^verbatim>\<open>L[i]\<close>; byte \<open>i\<close> of the
  array is byte \<open>i mod 8\<close>, in the host's order, of word \<open>i div 8\<close>. Accesses to
  \<open>L\<close> and to the key are checked against their bounds like those to the table.
\<close>

definition nth_chk :: "'a list \<Rightarrow> int \<Rightarrow> 'a option" where
  "nth_chk xs i = (if 0 \<le> i \<and> i < int (length xs) then Some (xs ! nat i) else None)"

definition upd_chk :: "'a list \<Rightarrow> int \<Rightarrow> 'a \<Rightarrow> 'a list option" where
  "upd_chk xs i v = (if 0 \<le> i \<and> i < int (length xs) then Some (xs[nat i := v]) else None)"

definition poke_char :: "host \<Rightarrow> WORD list \<Rightarrow> int \<Rightarrow> byte \<Rightarrow> WORD list option" where
  "poke_char h L i c = do {
     x \<leftarrow> nth_chk L (i sdiv sizeof_WORD);
     let rep = (object_rep h 8 x)[nat (i smod sizeof_WORD) := c];
     upd_chk L (i sdiv sizeof_WORD) (object_val h rep) }"

text \<open>Byte \<open>i\<close> of the array, as the \<^verbatim>\<open>char *\<close> view sees it.\<close>

definition mem_byte :: "host \<Rightarrow> WORD list \<Rightarrow> nat \<Rightarrow> byte" where
  "mem_byte h L i = object_rep h 8 (L ! (i div 8)) ! (i mod 8)"

text \<open>\<^verbatim>\<open>for (i=0; i<b; i++) ((char *)L)[i] = ((char *)key)[i];\<close>\<close>

function setup_copy_key ::
  "host \<Rightarrow> int \<Rightarrow> int \<Rightarrow> byte list \<Rightarrow> WORD list \<Rightarrow> WORD list option" where
  "setup_copy_key h i b key L =
     (if i < b then do {
        c \<leftarrow> nth_chk key i;
        L \<leftarrow> poke_char h L i c;
        setup_copy_key h (i + 1) b key L }
      else Some L)"
  by pat_completeness auto
termination
  by (relation "measure (\<lambda>(h, i, b, key, L). nat (b - i))") auto

declare setup_copy_key.simps [simp del]

text \<open>\<^verbatim>\<open>for (i=0; i<L_words; i++) L[i] = bswap_if_be(L[i]);\<close>\<close>

function setup_bswap_key :: "host \<Rightarrow> int \<Rightarrow> int \<Rightarrow> WORD list \<Rightarrow> WORD list option" where
  "setup_bswap_key h i L_words L =
     (if i < L_words then do {
        x \<leftarrow> nth_chk L i;
        L \<leftarrow> upd_chk L i (bswap_if_be h x);
        setup_bswap_key h (i + 1) L_words L }
      else Some L)"
  by pat_completeness auto
termination
  by (relation "measure (\<lambda>(h, i, L_words, L). nat (L_words - i))") auto

declare setup_bswap_key.simps [simp del]

text \<open>\<^verbatim>\<open>for (i=1; i<S_words; i++) S[i] = S[i-1] + Q;\<close>\<close>

function setup_fill :: "int \<Rightarrow> int \<Rightarrow> table \<Rightarrow> table option" where
  "setup_fill i S_words S =
     (if i < S_words then do {
        (x, S) \<leftarrow> rd S (i - 1);
        S \<leftarrow> wr S i (x + Q);
        setup_fill (i + 1) S_words S }
      else Some S)"
  by pat_completeness auto
termination
  by (relation "measure (\<lambda>(i, S_words, S). nat (S_words - i))") auto

declare setup_fill.simps [simp del]

text \<open>
  \<^verbatim>\<open>for (i=0,j=0,k=0; k<3*max(L_words, S_words); i++,j++,k++) { ... }\<close>
\<close>

function setup_mix ::
  "int \<Rightarrow> int \<Rightarrow> int \<Rightarrow> int \<Rightarrow> int \<Rightarrow> WORD \<Rightarrow> WORD \<Rightarrow> table \<Rightarrow> WORD list \<Rightarrow>
   (table \<times> WORD list) option" where
  "setup_mix i j k S_words L_words A B S L =
     (if k < 3 * max_c L_words S_words then do {
        let i = (if i = S_words then 0 else i);
        let j = (if j = L_words then 0 else j);
        (x, S) \<leftarrow> rd S i;
        let A = rotl (x + A + B) 3;
        S \<leftarrow> wr S i A;
        y \<leftarrow> nth_chk L j;
        let B = rotl (y + A + B) (uint ((A + B) mod 64));
        L \<leftarrow> upd_chk L j B;
        setup_mix (i + 1) (j + 1) (k + 1) S_words L_words A B S L }
      else Some (S, L))"
  by pat_completeness auto
termination
  by (relation "measure (\<lambda>(i, j, k, S_words, L_words, A, B, S, L).
        nat (3 * max_c L_words S_words - k))") auto

declare setup_mix.simps [simp del]

text \<open>
  The declarations of \<^verbatim>\<open>L\<close> and \<^verbatim>\<open>L_words\<close> and the three statements under
  \<^verbatim>\<open>/* Convert key bytes to key words */\<close>. The result is \<^verbatim>\<open>L_words\<close> with the
  array \<^verbatim>\<open>L\<close> as these statements leave it.
\<close>

definition setup_key ::
  "host \<Rightarrow> (nat \<Rightarrow> WORD) \<Rightarrow> int \<Rightarrow> byte list \<Rightarrow> (int \<times> WORD list) option" where
  "setup_key h junk b key = do {
     let L = map junk [0..<nat (256 sdiv sizeof_WORD)];
     let L_words = max_c 1 ((b + sizeof_WORD - 1) sdiv sizeof_WORD);
     L \<leftarrow> upd_chk L (L_words - 1) 0;
     L \<leftarrow> setup_copy_key h 0 b key L;
     L \<leftarrow> setup_bswap_key h 0 L_words L;
     Some (L_words, L) }"

text \<open>
  \<open>setup_c\<close> is the source's \<^verbatim>\<open>setup\<close>. It returns the C function's result
  (\<open>-1\<close> or \<open>0\<close>) with the table as it leaves it.
\<close>

definition setup_c ::
  "host \<Rightarrow> (nat \<Rightarrow> WORD) \<Rightarrow> table \<Rightarrow> int \<Rightarrow> int \<Rightarrow> int \<Rightarrow> int \<Rightarrow> byte list \<Rightarrow>
   (int \<times> table) option" where
  "setup_c h junk S S_words w r b key =
     (if WORD_SZ \<noteq> w \<or> b < 0 \<or> b > 255 \<or> r < 0 \<or> r > 255 \<or> r smod 4 \<noteq> 0
      then Some (- 1, S)
      else do {
        let A = 0; let B = 0;
        (L_words, L) \<leftarrow> setup_key h junk b key;
        S \<leftarrow> wr S 0 P;
        S \<leftarrow> setup_fill 1 S_words S;
        (S, L) \<leftarrow> setup_mix 0 0 0 S_words L_words A B S L;
        Some (0, S) })"

definition rc5_setup ::
  "host \<Rightarrow> (nat \<Rightarrow> WORD) \<Rightarrow> table \<Rightarrow> int \<Rightarrow> int \<Rightarrow> int \<Rightarrow> byte list \<Rightarrow> (int \<times> table) option" where
  "rc5_setup h junk rkey w r b key = setup_c h junk rkey (2 * r + 2) w r b key"

definition rc6_setup ::
  "host \<Rightarrow> (nat \<Rightarrow> WORD) \<Rightarrow> table \<Rightarrow> int \<Rightarrow> int \<Rightarrow> int \<Rightarrow> byte list \<Rightarrow> (int \<times> table) option" where
  "rc6_setup h junk rkey w r b key = setup_c h junk rkey (2 * r + 4) w r b key"

subsection \<open>Blocks as bytes\<close>

text \<open>
  The callers hand over \<^verbatim>\<open>void *\<close> buffers of bytes; \<^verbatim>\<open>((WORD *)pt)[i]\<close> is the
  word the host reads from bytes \<open>8i\<close> to \<open>8i+7\<close> of the buffer, and a store through
  \<^verbatim>\<open>(WORD *)ct\<close> leaves the word's representation there. The byte view of the
  block functions reads the plaintext words from a buffer and returns the bytes
  written to the ciphertext buffer.
\<close>

definition load_WORD :: "host \<Rightarrow> byte list \<Rightarrow> nat \<Rightarrow> WORD option" where
  "load_WORD h buf i =
     (if 8 * i + 8 \<le> length buf then Some (object_val h (take 8 (drop (8 * i) buf)))
      else None)"

definition rc5_encrypt_bytes ::
  "host \<Rightarrow> table \<Rightarrow> int \<Rightarrow> int \<Rightarrow> byte list \<Rightarrow> (byte list \<times> table) option" where
  "rc5_encrypt_bytes h rkey w r pt = do {
     p0 \<leftarrow> load_WORD h pt 0;
     p1 \<leftarrow> load_WORD h pt 1;
     ((c0, c1), m) \<leftarrow> rc5_encrypt h rkey w r (p0, p1);
     Some (object_rep h 8 c0 @ object_rep h 8 c1, m) }"

definition rc6_encrypt_bytes ::
  "host \<Rightarrow> table \<Rightarrow> int \<Rightarrow> int \<Rightarrow> byte list \<Rightarrow> (byte list \<times> table) option" where
  "rc6_encrypt_bytes h rkey w r pt = do {
     p0 \<leftarrow> load_WORD h pt 0;
     p1 \<leftarrow> load_WORD h pt 1;
     p2 \<leftarrow> load_WORD h pt 2;
     p3 \<leftarrow> load_WORD h pt 3;
     ((c0, c1, c2, c3), m) \<leftarrow> rc6_encrypt h rkey w r (p0, p1, p2, p3);
     Some (object_rep h 8 c0 @ object_rep h 8 c1 @ object_rep h 8 c2 @ object_rep h 8 c3, m) }"

section \<open>The specification's description of the engine\<close>

text \<open>
  The definitions of this section follow the words of the specification, not the
  source: words are 64-bit, tables and key material are plain lists indexed from 0,
  and rotation is the rotation of the word library.
\<close>

definition rotateLeft :: "WORD \<Rightarrow> nat \<Rightarrow> WORD" where
  "rotateLeft x n = word_rotl n x"

definition rotateRight :: "WORD \<Rightarrow> nat \<Rightarrow> WORD" where
  "rotateRight x n = word_rotr n x"

fun log2 :: "nat \<Rightarrow> nat" where
  "log2 n = (if n < 2 then 0 else Suc (log2 (n div 2)))"

declare log2.simps [simp del]

definition W :: nat where
  "W = 64"

text \<open>
  Unsupported parameters: \<open>w\<close> differs from the compiled width, \<open>b\<close> or \<open>r\<close> lies
  outside \<open>[0,255]\<close>, or \<open>r\<close> is not a multiple of 4.
\<close>

definition unsupported :: "int \<Rightarrow> int \<Rightarrow> int \<Rightarrow> bool" where
  "unsupported w r b \<longleftrightarrow>
     w \<noteq> int W \<or> b < 0 \<or> b > 255 \<or> r < 0 \<or> r > 255 \<or> r mod 4 \<noteq> 0"

text \<open>
  Key material: \<open>max(1, ceil(b / wordBytes))\<close> words, the key bytes packed
  least-significant-byte-first, the rest of the last word zero.
\<close>

definition spec_L_words :: "nat \<Rightarrow> nat" where
  "spec_L_words b = max 1 ((b + 7) div 8)"

definition spec_key_byte :: "nat \<Rightarrow> byte list \<Rightarrow> nat \<Rightarrow> byte" where
  "spec_key_byte b key i = (if i < b then key ! i else 0)"

definition spec_key_word :: "nat \<Rightarrow> byte list \<Rightarrow> nat \<Rightarrow> WORD" where
  "spec_key_word b key j =
     (\<Sum>k\<leftarrow>[0..<8]. ucast (spec_key_byte b key (8 * j + k)) * 2 ^ (8 * k))"

definition spec_key_words :: "nat \<Rightarrow> byte list \<Rightarrow> WORD list" where
  "spec_key_words b key = map (spec_key_word b key) [0..<spec_L_words b]"

text \<open>\<open>S[0] = P\<close>; for \<open>i\<close> in \<open>1..S_words-1\<close>: \<open>S[i] = S[i-1] + Q\<close>.\<close>

fun spec_fill :: "nat \<Rightarrow> WORD list" where
  "spec_fill 0 = []"
| "spec_fill (Suc 0) = [P]"
| "spec_fill (Suc (Suc n)) = (let S = spec_fill (Suc n) in S @ [last S + Q])"

text \<open>
  One mixing iteration on \<open>(S, L, A, B, i, j)\<close>: wrap the cursors, then
  \<open>A = S[i] = rotateLeft(S[i] + A + B, 3)\<close>, then
  \<open>B = L[j] = rotateLeft(L[j] + A + B, (A + B) mod W)\<close>, then advance the cursors.
\<close>

type_synonym mix_state = "WORD list \<times> WORD list \<times> WORD \<times> WORD \<times> nat \<times> nat"

definition spec_mix_step :: "nat \<Rightarrow> nat \<Rightarrow> mix_state \<Rightarrow> mix_state" where
  "spec_mix_step S_words L_words = (\<lambda>(S, L, A, B, i, j).
     let i = (if i = S_words then 0 else i);
         j = (if j = L_words then 0 else j);
         A = rotateLeft (S ! i + A + B) 3;
         S = S[i := A];
         B = rotateLeft (L ! j + A + B) (unat (A + B) mod W);
         L = L[j := B]
     in (S, L, A, B, i + 1, j + 1))"

definition spec_key_schedule :: "nat \<Rightarrow> WORD list \<Rightarrow> WORD list" where
  "spec_key_schedule S_words L =
     (let L_words = length L;
          start = (spec_fill S_words, L, 0, 0, 0, 0)
      in fst ((spec_mix_step S_words L_words ^^ (3 * max L_words S_words)) start))"

text \<open>RC5: whitening with \<open>S[0]\<close>, \<open>S[1]\<close>, then \<open>r\<close> rounds.\<close>

definition spec_rc5_round :: "WORD list \<Rightarrow> nat \<Rightarrow> WORD \<times> WORD \<Rightarrow> WORD \<times> WORD" where
  "spec_rc5_round S rnd = (\<lambda>(A, B).
     let A = rotateLeft (A XOR B) (unat B mod W) + S ! (2 * rnd + 2);
         B = rotateLeft (B XOR A) (unat A mod W) + S ! (2 * rnd + 3)
     in (A, B))"

definition spec_rc5_encrypt :: "WORD list \<Rightarrow> nat \<Rightarrow> WORD \<times> WORD \<Rightarrow> WORD \<times> WORD" where
  "spec_rc5_encrypt S r = (\<lambda>(p0, p1).
     fold (spec_rc5_round S) [0..<r] (p0 + S ! 0, p1 + S ! 1))"

text \<open>RC6: \<open>f(x) = rotateLeft(x * (2x + 1), log2(W))\<close>.\<close>

definition spec_f :: "WORD \<Rightarrow> WORD" where
  "spec_f x = rotateLeft (x * (2 * x + 1)) (log2 W)"

type_synonym block4 = "WORD \<times> WORD \<times> WORD \<times> WORD"

definition spec_rc6_round :: "WORD list \<Rightarrow> nat \<Rightarrow> block4 \<Rightarrow> block4" where
  "spec_rc6_round S rnd = (\<lambda>(A, B, C, D).
     let t = spec_f B;
         u = spec_f D;
         A = rotateLeft (A XOR t) (unat u mod W) + S ! (2 * rnd + 2);
         C = rotateLeft (C XOR u) (unat t mod W) + S ! (2 * rnd + 3)
     in (B, C, D, A))"

definition spec_rc6_encrypt :: "WORD list \<Rightarrow> nat \<Rightarrow> block4 \<Rightarrow> block4" where
  "spec_rc6_encrypt S r = (\<lambda>(p0, p1, p2, p3).
     let (A, B, C, D) = fold (spec_rc6_round S) [0..<r] (p0, p1 + S ! 0, p2, p3 + S ! 1)
     in (A + S ! (2 * r + 2), B, C + S ! (2 * r + 3), D))"

text \<open>
  The inverses of the two rounds, used to describe what the decryption loops compute.
\<close>

definition rc5_round_inv :: "WORD list \<Rightarrow> nat \<Rightarrow> WORD \<times> WORD \<Rightarrow> WORD \<times> WORD" where
  "rc5_round_inv S rnd = (\<lambda>(A, B).
     let B = rotateRight (B - S ! (2 * rnd + 3)) (unat A mod W) XOR A;
         A = rotateRight (A - S ! (2 * rnd + 2)) (unat B mod W) XOR B
     in (A, B))"

definition rc6_round_inv :: "WORD list \<Rightarrow> nat \<Rightarrow> block4 \<Rightarrow> block4" where
  "rc6_round_inv S rnd = (\<lambda>(A, B, C, D).
     let (A, B, C, D) = (D, A, B, C);
         u = spec_f D;
         t = spec_f B;
         C = rotateRight (C - S ! (2 * rnd + 3)) (unat t mod W) XOR u;
         A = rotateRight (A - S ! (2 * rnd + 2)) (unat u mod W) XOR t
     in (A, B, C, D))"

definition rc5_decrypt_value :: "WORD list \<Rightarrow> nat \<Rightarrow> WORD \<times> WORD \<Rightarrow> WORD \<times> WORD" where
  "rc5_decrypt_value S r = (\<lambda>c.
     let (A, B) = fold (rc5_round_inv S) (rev [0..<r]) c
     in (A - S ! 0, B - S ! 1))"

definition rc6_decrypt_value :: "WORD list \<Rightarrow> nat \<Rightarrow> block4 \<Rightarrow> block4" where
  "rc6_decrypt_value S r = (\<lambda>(c0, c1, c2, c3).
     let (A, B, C, D) =
           fold (rc6_round_inv S) (rev [0..<r]) (c0 - S ! (2 * r + 2), c1, c2 - S ! (2 * r + 3), c3)
     in (A, B - S ! 0, C, D - S ! 1))"

text \<open>Normalising every word of a block with \<open>bswap_if_be\<close>.\<close>

definition norm2 :: "host \<Rightarrow> WORD \<times> WORD \<Rightarrow> WORD \<times> WORD" where
  "norm2 h = (\<lambda>(x0, x1). (bswap_if_be h x0, bswap_if_be h x1))"

definition norm4 :: "host \<Rightarrow> block4 \<Rightarrow> block4" where
  "norm4 h = (\<lambda>(x0, x1, x2, x3).
     (bswap_if_be h x0, bswap_if_be h x1, bswap_if_be h x2, bswap_if_be h x3))"

section \<open>Properties of the model\<close>

section \<open>Bytes and words\<close>

lemma length_bytes_le [simp]: "length (bytes_le n x) = n"
  by (induction n arbitrary: x) auto

lemma bytes_le_nth: "k < n \<Longrightarrow> bytes_le n x ! k = ucast (drop_bit (8 * k) x)"
proof (induction n arbitrary: x k)
  case 0
  then show ?case by simp
next
  case (Suc n)
  then show ?case
    by (cases k) (simp_all add: drop_bit_drop_bit add.commute)
qed

lemma bit_word_le:
  "bit (word_le bs :: 'a::len word) i \<longleftrightarrow>
     i < LENGTH('a) \<and> i div 8 < length bs \<and> bit (bs ! (i div 8)) (i mod 8)"
proof (induction bs arbitrary: i)
  case Nil
  then show ?case by simp
next
  case (Cons c cs)
  show ?case
  proof (cases "i < 8")
    case True
    then show ?thesis by (auto simp: bit_simps dest: bit_imp_le_length)
  next
    case False
    then have "i div 8 = Suc ((i - 8) div 8)" "(i - 8) mod 8 = i mod 8"
      by (simp_all add: le_div_geq le_mod_geq)
    with False show ?thesis
      by (auto simp: bit_simps Cons.IH dest: bit_imp_le_length)
  qed
qed

lemma word_le_bytes_le: "word_le (bytes_le 8 x) = (x :: WORD)"
proof (rule bit_word_eqI)
  fix i assume "i < LENGTH(64)"
  then have i: "i < 64" by simp
  then have d: "i div 8 < 8" by simp
  have "8 * (i div 8) + i mod 8 = i" by simp
  then show "bit (word_le (bytes_le 8 x) :: WORD) i = bit x i"
    using i d by (simp add: bit_word_le bytes_le_nth bit_simps)
qed

lemma bytes_le_word_le:
  assumes "length bs = 8" shows "bytes_le 8 (word_le bs :: WORD) = bs"
proof (rule nth_equalityI)
  show "length (bytes_le 8 (word_le bs :: WORD)) = length bs" using assms by simp
next
  fix k assume "k < length (bytes_le 8 (word_le bs :: WORD))"
  then have k: "k < 8" by simp
  have "ucast (drop_bit (8 * k) (word_le bs :: WORD)) = bs ! k"
  proof (rule bit_word_eqI)
    fix n assume "n < LENGTH(8)"
    then have n: "n < 8" by simp
    have "(8 * k + n) div 8 = k" "(8 * k + n) mod 8 = n" "8 * k + n < 64"
      using n k by simp_all
    then show "bit (ucast (drop_bit (8 * k) (word_le bs :: WORD)) :: byte) n = bit (bs ! k) n"
      using n k assms by (simp add: bit_simps bit_word_le)
  qed
  then show "bytes_le 8 (word_le bs :: WORD) ! k = bs ! k"
    using k by (simp add: bytes_le_nth)
qed

lemma bswap_bswap [simp]: "bswap (bswap x) = x"
  by (simp add: bswap_def bytes_le_word_le word_le_bytes_le)

lemma bswap_if_be_LittleEndian [simp]: "bswap_if_be LittleEndian x = x"
  by (simp add: bswap_if_be_def object_rep_def numeral_eq_Suc)

lemma bswap_if_be_BigEndian [simp]: "bswap_if_be BigEndian x = bswap x"
  by (simp add: bswap_if_be_def object_rep_def numeral_eq_Suc)

lemma bswap_if_be_twice [simp]: "bswap_if_be h (bswap_if_be h x) = x"
  by (cases h) simp_all

lemma length_object_rep [simp]: "length (object_rep h n x) = n"
  by (cases h) (simp_all add: object_rep_def)

lemma object_val_rep [simp]: "object_val h (object_rep h 8 x) = (x :: WORD)"
  by (cases h) (simp_all add: object_val_def object_rep_def word_le_bytes_le)

lemma object_rep_val:
  "length bs = 8 \<Longrightarrow> object_rep h 8 (object_val h bs :: WORD) = bs"
  by (cases h) (simp_all add: object_val_def object_rep_def bytes_le_word_le)

text \<open>Normalised loads and stores do not depend on the host.\<close>

lemma bswap_if_be_object_val:
  "length bs = 8 \<Longrightarrow> bswap_if_be h (object_val h bs) = word_le bs"
  by (cases h) (simp_all add: object_val_def bswap_def bytes_le_word_le)

lemma object_rep_bswap_if_be:
  "object_rep h 8 (bswap_if_be h x) = bytes_le 8 x"
  by (cases h) (simp_all add: object_rep_def bswap_def bytes_le_word_le)

section \<open>Rotation\<close>

lemma rotl_word_rotl: 
  assumes "0 \<le> d" "d < 64" shows "rotl x d = word_rotl (nat d) x"
proof (rule bit_word_eqI)
  fix n assume n: "n < LENGTH(64)"
  define k where "k = nat d"
  have k: "k < 64" "nat (64 - d) = 64 - k" using assms by (simp_all add: k_def)
  have L: "bit (rotl x d) n \<longleftrightarrow> (k \<le> n \<and> bit x (n - k)) \<or> bit x (64 - k + n)"
    using n k by (simp add: rotl_def WORD_SZ_def bit_simps flip: k_def)
  have R: "bit (word_rotl (nat d) x) n \<longleftrightarrow> bit x ((n + (64 - k)) mod 64)"
    using n k by (simp add: bit_simps flip: k_def)
  show "bit (rotl x d) n = bit (word_rotl (nat d) x) n"
  proof (cases "k \<le> n")
    case True
    then have "n + (64 - k) = (n - k) + 64" using k by simp
    moreover have "((n - k) + 64) mod 64 = (n - k) mod 64" by (rule mod_add_self2)
    moreover have "(n - k) mod 64 = n - k" using n by simp
    ultimately have "(n + (64 - k)) mod 64 = n - k" by (simp only:)
    moreover have "\<not> bit x (64 - k + n)" using True k by (auto dest!: bit_imp_le_length)
    ultimately show ?thesis using True unfolding L R by simp
  next
    case False
    then have "(n + (64 - k)) mod 64 = 64 - k + n" using k n by simp
    then show ?thesis using False unfolding L R by simp
  qed
qed

lemma rotr_word_rotr: 
  assumes "0 \<le> d" "d < 64" shows "rotr x d = word_rotr (nat d) x"
proof (rule bit_word_eqI)
  fix n assume n: "n < LENGTH(64)"
  define k where "k = nat d"
  have k: "k < 64" "nat (64 - d) = 64 - k" using assms by (simp_all add: k_def)
  have L: "bit (rotr x d) n \<longleftrightarrow> bit x (k + n) \<or> (64 - k \<le> n \<and> bit x (n - (64 - k)))"
    using n k by (simp add: rotr_def WORD_SZ_def bit_simps flip: k_def)
  have R: "bit (word_rotr (nat d) x) n \<longleftrightarrow> bit x ((n + k) mod 64)"
    using n k by (simp add: bit_simps flip: k_def)
  show "bit (rotr x d) n = bit (word_rotr (nat d) x) n"
  proof (cases "n + k < 64")
    case True
    then have "(n + k) mod 64 = k + n" by simp
    moreover have "\<not> 64 - k \<le> n" using True by simp
    ultimately show ?thesis unfolding L R by (simp add: add.commute)
  next
    case False
    then have "n + k = (n - (64 - k)) + 64" using k n by simp
    moreover have "((n - (64 - k)) + 64) mod 64 = (n - (64 - k)) mod 64" by (rule mod_add_self2)
    moreover have "(n - (64 - k)) mod 64 = n - (64 - k)" using n by simp
    ultimately have "(n + k) mod 64 = n - (64 - k)" by (simp only:)
    moreover have "\<not> bit x (k + n)" using False by (auto dest!: bit_imp_le_length)
    moreover have "64 - k \<le> n" using False by simp
    ultimately show ?thesis unfolding L R by simp
  qed
qed

lemma uint_mod_64: "uint (y mod 64 :: WORD) = int (unat y mod 64)"
proof -
  have "uint (y mod 64) = uint y mod 64"
    by (simp add: uint_mod)
  moreover have "int (unat y mod 64) = uint y mod 64"
    by (simp add: zmod_int)
  ultimately show ?thesis by (simp only:)
qed

lemma rotl_amount: "rotl x (uint (y mod 64 :: WORD)) = rotateLeft x (unat y mod W)"
  unfolding uint_mod_64 by (simp add: rotl_word_rotl rotateLeft_def W_def)

lemma rotr_amount: "rotr x (uint (y mod 64 :: WORD)) = rotateRight x (unat y mod W)"
  unfolding uint_mod_64 by (simp add: rotr_word_rotr rotateRight_def W_def)

lemma rotl_3: "rotl x 3 = rotateLeft x 3"
  by (simp add: rotl_word_rotl rotateLeft_def)

lemma log2_W: "log2 W = 6"
  unfolding W_def by code_simp

lemma rotl_LGW: "rotl x LGW = rotateLeft x (log2 W)"
  by (simp add: log2_W LGW_def rotl_word_rotl rotateLeft_def)

lemma rotateLeft_shifts: "n < 64 \<Longrightarrow> rotateLeft x n = push_bit n x OR drop_bit (64 - n) x"
  using rotl_word_rotl [of "int n" x]
  by (simp add: rotateLeft_def rotl_def WORD_SZ_def nat_diff_distrib)

lemma rotateRight_rotateLeft [simp]: "rotateRight (rotateLeft x n) n = x"
  by (simp add: rotateRight_def rotateLeft_def)

lemma rotateLeft_rotateRight [simp]: "rotateLeft (rotateRight x n) n = x"
  by (simp add: rotateRight_def rotateLeft_def)

section \<open>Table accesses and counted loops\<close>

lemma rd_nat:
  "i < length (cells m) \<Longrightarrow>
   rd m (int i) = Some (cells m ! i, m\<lparr>reads := reads m @ [int i]\<rparr>)"
  by (simp add: rd_def)

lemma rd_nat_plus1:
  "Suc i < length (cells m) \<Longrightarrow>
   rd m (int i + 1) = Some (cells m ! Suc i, m\<lparr>reads := reads m @ [int (Suc i)]\<rparr>)"
  using rd_nat [of "Suc i" m] by (simp add: add.commute)

lemma loop_add: "loop (a + b) f s = loop a f s \<bind> loop b f"
proof (induction a arbitrary: s)
  case 0
  then show ?case by simp
next
  case (Suc a)
  have "f s \<bind> loop (a + b) f = f s \<bind> (\<lambda>y. loop a f y \<bind> loop b f)"
    by (rule Option.bind_cong [OF refl]) (rule Suc.IH)
  then show ?case by simp
qed

lemma loop_loop: "loop n (loop k f) s = loop (n * k) f s"
proof (induction n arbitrary: s)
  case 0
  then show ?case by simp
next
  case (Suc n)
  have "loop k f s \<bind> loop n (loop k f) = loop k f s \<bind> loop (n * k) f"
    by (rule Option.bind_cong [OF refl]) (rule Suc.IH)
  then show ?case by (simp add: loop_add)
qed

lemma sdiv_4_nonneg: "0 \<le> r \<Longrightarrow> r sdiv 4 = (r :: int) div 4"
  by (simp add: signed_divide_int_def sgn_if)

lemma smod_4_nonneg: "0 \<le> r \<Longrightarrow> r smod 4 = (r :: int) mod 4"
  by (simp add: signed_modulo_int_def sgn_if)

lemma rounds_count:
  assumes "0 \<le> r" "r mod 4 = 0" shows "nat (r sdiv 4) * 4 = nat r"
proof -
  have "r = (r div 4) * 4" using assms by presburger
  moreover have "0 \<le> r div 4" using assms by simp
  ultimately have "nat r = nat (r div 4) * 4"
    by (metis nat_mult_distrib nat_numeral)
  then show ?thesis using assms by (simp add: sdiv_4_nonneg)
qed

lemma upt_two: "Suc a < c \<Longrightarrow> [a..<c] = a # Suc a # [Suc (Suc a)..<c]"
  by (simp add: upt_conv_Cons)

section \<open>RC5\<close>

lemma rc5_encrypt_round_eq:
  assumes "s = 2 * k + 2" "Suc s < length (cells m)"
  shows "rc5_encrypt_round (A, B, int s, m) =
         (case spec_rc5_round (cells m) k (A, B) of (A', B') \<Rightarrow>
            Some (A', B', int (Suc (Suc s)),
                  m\<lparr>reads := reads m @ [int s, int (Suc s)]\<rparr>))"
proof -
  have 1: "rd m (int s) = Some (cells m ! s, m\<lparr>reads := reads m @ [int s]\<rparr>)"
    using assms by (intro rd_nat) simp
  have 2: "rd (m\<lparr>reads := reads m @ [int s]\<rparr>) (int s + 1) =
             Some (cells m ! Suc s, m\<lparr>reads := reads m @ [int s, int (Suc s)]\<rparr>)"
    using assms rd_nat_plus1 [of s "m\<lparr>reads := reads m @ [int s]\<rparr>"] by simp
  have s: "2 * k + 2 = s" "2 * k + 3 = Suc s" using assms by simp_all
  show ?thesis
    unfolding rc5_encrypt_round_def spec_rc5_round_def s
    by (simp add: 1 2 Let_def rotl_amount)
qed

lemma rc5_encrypt_rounds:
  "s = 2 * k + 2 \<Longrightarrow> s + 2 * n \<le> length (cells m) \<Longrightarrow>
   loop n rc5_encrypt_round (A, B, int s, m) =
     (case fold (spec_rc5_round (cells m)) [k..<k + n] (A, B) of (A', B') \<Rightarrow>
        Some (A', B', int (s + 2 * n), m\<lparr>reads := reads m @ map int [s..<s + 2 * n]\<rparr>))"
proof (induction n arbitrary: s k A B m)
  case 0
  then show ?case by simp
next
  case (Suc n)
  obtain A' B' where r: "spec_rc5_round (cells m) k (A, B) = (A', B')"
    by (cases "spec_rc5_round (cells m) k (A, B)")
  let ?m = "m\<lparr>reads := reads m @ [int s, int (Suc s)]\<rparr>"
  have step: "rc5_encrypt_round (A, B, int s, m) = Some (A', B', int (Suc (Suc s)), ?m)"
    using Suc.prems by (subst rc5_encrypt_round_eq [of s k]) (simp_all add: r)
  have ih: "loop n rc5_encrypt_round (A', B', int (Suc (Suc s)), ?m) =
     (case fold (spec_rc5_round (cells ?m)) [Suc k..<Suc k + n] (A', B') of (A'', B'') \<Rightarrow>
        Some (A'', B'', int (Suc (Suc s) + 2 * n),
              ?m\<lparr>reads := reads ?m @ map int [Suc (Suc s)..<Suc (Suc s) + 2 * n]\<rparr>))"
    using Suc.prems by (intro Suc.IH) simp_all
  have upt: "[k..<k + Suc n] = k # [Suc k..<Suc k + n]"
    by (simp add: upt_conv_Cons)
  have tr: "[s..<s + 2 * Suc n] = s # Suc s # [Suc (Suc s)..<Suc (Suc s) + 2 * n]"
    using upt_two [of s "s + 2 * Suc n"] by simp
  have e: "int (s + 2 * Suc n) = int (Suc (Suc s) + 2 * n)" by simp
  show ?case
    unfolding loop.simps step upt tr e
    by (simp add: ih r del: upt_Suc of_nat_add of_nat_Suc)
qed

lemma rc5_encrypt_eq:
  assumes "0 \<le> r" "r mod 4 = 0" "2 * r + 2 \<le> int (length (cells m))"
  shows "rc5_encrypt h m w r p =
         Some (norm2 h (spec_rc5_encrypt (cells m) (nat r) (norm2 h p)),
               m\<lparr>reads := reads m @ map int [0..<2 * nat r + 2]\<rparr>)"
proof -
  obtain p0 p1 where p: "p = (p0, p1)" by (cases p)
  let ?m = "m\<lparr>reads := reads m @ [0, 1]\<rparr>"
  have len: "2 + 2 * nat r \<le> length (cells m)" using assms by linarith
  have len0: "0 < length (cells m)" "1 < length (cells m)" using len by linarith+
  have 1: "rd m 0 = Some (cells m ! 0, m\<lparr>reads := reads m @ [0]\<rparr>)"
    using rd_nat [OF len0(1)] by simp
  have 2: "rd (m\<lparr>reads := reads m @ [0]\<rparr>) 1 = Some (cells m ! 1, ?m)"
    using len0 rd_nat [of 1 "m\<lparr>reads := reads m @ [0]\<rparr>"] by simp
  have lp: "loop (nat (r sdiv 4)) (loop 4 rc5_encrypt_round) (A, B, 2, ?m) =
     (case fold (spec_rc5_round (cells m)) [0..<nat r] (A, B) of (A', B') \<Rightarrow>
        Some (A', B', int (2 + 2 * nat r),
              ?m\<lparr>reads := reads ?m @ map int [2..<2 + 2 * nat r]\<rparr>))" for A B
    using rc5_encrypt_rounds [of 2 0 "nat r" ?m A B] len
    by (simp add: loop_loop rounds_count assms)
  have tr: "[0..<2 * nat r + 2] = 0 # 1 # [2..<2 + 2 * nat r]"
    using upt_two [of 0 "2 + 2 * nat r"] by (simp add: numeral_2_eq_2)
  show ?thesis
    unfolding p rc5_encrypt.simps tr Let_def 1
    by (simp add: 2 lp norm2_def spec_rc5_encrypt_def split: prod.splits del: upt_Suc)
qed

lemma loop_Suc_Some: "f s = Some s' \<Longrightarrow> loop (Suc n) f s = loop n f s'"
  by simp

lemma loop_unrolled:
  "0 \<le> r \<Longrightarrow> r mod 4 = 0 \<Longrightarrow> loop (nat (r sdiv 4)) (loop 4 f) s = loop (nat r) f s"
  by (simp add: loop_loop rounds_count)

lemma rc5_decrypt_round_eq:
  assumes "c = 2 * j + 3" "c < length (cells m)"
  shows "rc5_decrypt_round (A, B, int c, m) =
         (case rc5_round_inv (cells m) j (A, B) of (A', B') \<Rightarrow>
            Some (A', B', int (c - 2), m\<lparr>reads := reads m @ [int c, int (c - 1)]\<rparr>))"
proof -
  have 1: "rd m (int c) = Some (cells m ! c, m\<lparr>reads := reads m @ [int c]\<rparr>)"
    using assms by (intro rd_nat) simp
  have 2: "rd (m\<lparr>reads := reads m @ [int c]\<rparr>) (int c - 1) =
             Some (cells m ! (c - 1), m\<lparr>reads := reads m @ [int c, int (c - 1)]\<rparr>)"
    using assms rd_nat [of "c - 1" "m\<lparr>reads := reads m @ [int c]\<rparr>"]
    by (simp add: of_nat_diff)
  have s: "2 * j + 3 = c" "2 * j + 2 = c - 1" using assms by simp_all
  have e: "int c - 2 = int (c - 2)" using assms by (simp add: of_nat_diff)
  show ?thesis
    unfolding rc5_decrypt_round_def rc5_round_inv_def s
    by (simp add: 1 2 e Let_def rotr_amount)
qed

lemma rc5_decrypt_rounds:
  "t = 2 * k + 1 \<Longrightarrow> t + 2 * n < length (cells m) \<Longrightarrow>
   loop n rc5_decrypt_round (A, B, int (t + 2 * n), m) =
     (case fold (rc5_round_inv (cells m)) (rev [k..<k + n]) (A, B) of (A', B') \<Rightarrow>
        Some (A', B', int t, m\<lparr>reads := reads m @ rev (map int [Suc t..<Suc t + 2 * n])\<rparr>))"
proof (induction n arbitrary: A B m)
  case 0
  then show ?case by simp
next
  case (Suc n)
  define c where "c = t + 2 * Suc n"
  define m1 where "m1 = m\<lparr>reads := reads m @ [int c, int (c - 1)]\<rparr>"
  obtain A' B' where r: "rc5_round_inv (cells m) (k + n) (A, B) = (A', B')"
    by (cases "rc5_round_inv (cells m) (k + n) (A, B)")
  have c2: "c - 2 = t + 2 * n" by (simp add: c_def)
  have m1: "cells m1 = cells m" "reads m1 = reads m @ [int c, int (c - 1)]"
    by (simp_all add: m1_def)
  have step: "rc5_decrypt_round (A, B, int c, m) = Some (A', B', int (t + 2 * n), m1)"
    using Suc.prems
    by (subst rc5_decrypt_round_eq [of c "k + n"]) (simp_all add: r c_def m1_def)
  have ih: "loop n rc5_decrypt_round (A', B', int (t + 2 * n), m1) =
     (case fold (rc5_round_inv (cells m1)) (rev [k..<k + n]) (A', B') of (A'', B'') \<Rightarrow>
        Some (A'', B'', int t,
              m1\<lparr>reads := reads m1 @ rev (map int [Suc t..<Suc t + 2 * n])\<rparr>))"
    using Suc.prems by (intro Suc.IH) (simp_all add: m1)
  have upt: "rev [k..<k + Suc n] = (k + n) # rev [k..<k + n]"
    by simp
  have tr: "rev (map int [Suc t..<Suc t + 2 * Suc n]) =
              int c # int (c - 1) # rev (map int [Suc t..<Suc t + 2 * n])"
    by (simp add: c_def)
  have fin: "m1\<lparr>reads := reads m1 @ xs\<rparr> = m\<lparr>reads := reads m @ int c # int (c - 1) # xs\<rparr>"
    for xs by (simp add: m1_def)
  have "loop (Suc n) rc5_decrypt_round (A, B, int c, m) =
        loop n rc5_decrypt_round (A', B', int (t + 2 * n), m1)"
    by (rule loop_Suc_Some) (rule step)
  then show ?case
    unfolding ih upt tr c_def [symmetric] fin m1(1)
    by (simp add: r)
qed

lemma rc5_decrypt_eq:
  assumes "0 \<le> r" "r mod 4 = 0" "2 * r + 2 \<le> int (length (cells m))"
  shows "rc5_decrypt h m w r c =
         Some (norm2 h (rc5_decrypt_value (cells m) (nat r) (norm2 h c)),
               m\<lparr>reads := reads m @ rev (map int [0..<2 * nat r + 2])\<rparr>)"
proof -
  obtain c0 c1 where c: "c = (c0, c1)" by (cases c)
  define t where "t = 1 + 2 * nat r"
  define tr where "tr = rev (map int [2..<2 + 2 * nat r])"
  define m1 where "m1 = m\<lparr>reads := reads m @ tr\<rparr>"
  have len: "2 + 2 * nat r \<le> length (cells m)" using assms by linarith
  have start: "2 * r + 1 = int t" using assms by (simp add: t_def)
  have "loop (nat r) rc5_decrypt_round (A, B, int (1 + 2 * nat r), m) =
     (case fold (rc5_round_inv (cells m)) (rev [0..<0 + nat r]) (A, B) of (A', B') \<Rightarrow>
        Some (A', B', int 1,
          m\<lparr>reads := reads m @ rev (map int [Suc 1..<Suc 1 + 2 * nat r])\<rparr>))" for A B
    using len by (intro rc5_decrypt_rounds) simp_all
  then have lp: "loop (nat (r sdiv 4)) (loop 4 rc5_decrypt_round) (A, B, int t, m) =
     (case fold (rc5_round_inv (cells m)) (rev [0..<nat r]) (A, B) of (A', B') \<Rightarrow>
        Some (A', B', 1, m1))" for A B
    unfolding loop_unrolled [OF assms(1,2)] t_def m1_def tr_def
    by (simp add: numeral_2_eq_2 del: upt_Suc)
  have "0 < length (cells m)" "1 < length (cells m)"
    using len by linarith+
  then have len0: "0 < length (cells m1)" "1 < length (cells m1)"
    by (simp_all add: m1_def)
  have 1: "rd m1 1 = Some (cells m ! 1, m1\<lparr>reads := reads m1 @ [1]\<rparr>)"
    using rd_nat [of 1 m1] len0 by (simp add: m1_def)
  have 2: "rd (m1\<lparr>reads := reads m1 @ [1]\<rparr>) 0 =
           Some (cells m ! 0, m1\<lparr>reads := reads m1 @ [1, 0]\<rparr>)"
    using rd_nat [of 0 "m1\<lparr>reads := reads m1 @ [1]\<rparr>"] len0 by (simp add: m1_def)
  have "[0..<2 * nat r + 2] = 0 # 1 # [2..<2 + 2 * nat r]"
    using upt_two [of 0 "2 + 2 * nat r"] by (simp add: numeral_2_eq_2)
  then have fin: "m\<lparr>reads := reads m @ rev (map int [0..<2 * nat r + 2])\<rparr> =
                  m1\<lparr>reads := reads m1 @ [1, 0]\<rparr>"
    by (simp add: m1_def tr_def)
  show ?thesis
    unfolding c rc5_decrypt.simps Let_def start fin
    by (simp add: 1 2 lp norm2_def rc5_decrypt_value_def split: prod.splits)
qed

section \<open>The rounds are inverted by their inverses\<close>

lemma xor_cancel_right [simp]: "(x XOR y) XOR y = (x :: WORD)"
  by (simp add: xor.assoc)

lemma rc5_round_inv_round [simp]: "rc5_round_inv S k (spec_rc5_round S k x) = x"
  by (cases x) (simp add: rc5_round_inv_def spec_rc5_round_def Let_def)

lemma fold_inverse:
  "(\<And>k x. g k (f k x) = x) \<Longrightarrow> fold g (rev ks) (fold f ks x) = x"
  by (induction ks arbitrary: x) simp_all

lemma rc5_decrypt_value_encrypt [simp]:
  "rc5_decrypt_value S r (spec_rc5_encrypt S r p) = p"
  by (cases p) (simp add: rc5_decrypt_value_def spec_rc5_encrypt_def fold_inverse
      split: prod.splits)

lemma norm2_norm2 [simp]: "norm2 h (norm2 h x) = x"
  by (cases x) (simp add: norm2_def)

lemma norm4_norm4 [simp]: "norm4 h (norm4 h x) = x"
  by (cases x) (simp add: norm4_def)

section \<open>RC6\<close>

lemma rc6_encrypt_round_eq:
  assumes "s = 2 * k + 2" "Suc s < length (cells m)"
  shows "rc6_encrypt_round (A, B, C, D, int s, m) =
         (case spec_rc6_round (cells m) k (A, B, C, D) of (A', B', C', D') \<Rightarrow>
            Some (A', B', C', D', int (Suc (Suc s)),
                  m\<lparr>reads := reads m @ [int s, int (Suc s)]\<rparr>))"
proof -
  have 1: "rd m (int s) = Some (cells m ! s, m\<lparr>reads := reads m @ [int s]\<rparr>)"
    using assms by (intro rd_nat) simp
  have 2: "rd (m\<lparr>reads := reads m @ [int s]\<rparr>) (int s + 1) =
             Some (cells m ! Suc s, m\<lparr>reads := reads m @ [int s, int (Suc s)]\<rparr>)"
    using assms rd_nat_plus1 [of s "m\<lparr>reads := reads m @ [int s]\<rparr>"] by simp
  have s: "2 * k + 2 = s" "2 * k + 3 = Suc s" using assms by simp_all
  show ?thesis
    unfolding rc6_encrypt_round_def spec_rc6_round_def spec_f_def s
    by (simp add: 1 2 Let_def rotl_amount rotl_LGW)
qed

lemma rc6_encrypt_rounds:
  "s = 2 * k + 2 \<Longrightarrow> s + 2 * n \<le> length (cells m) \<Longrightarrow>
   loop n rc6_encrypt_round (A, B, C, D, int s, m) =
     (case fold (spec_rc6_round (cells m)) [k..<k + n] (A, B, C, D) of (A', B', C', D') \<Rightarrow>
        Some (A', B', C', D', int (s + 2 * n),
              m\<lparr>reads := reads m @ map int [s..<s + 2 * n]\<rparr>))"
proof (induction n arbitrary: s k A B C D m)
  case 0
  then show ?case by simp
next
  case (Suc n)
  define m1 where "m1 = m\<lparr>reads := reads m @ [int s, int (Suc s)]\<rparr>"
  obtain A' B' C' D' where r: "spec_rc6_round (cells m) k (A, B, C, D) = (A', B', C', D')"
    by (cases "spec_rc6_round (cells m) k (A, B, C, D)")
  have m1: "cells m1 = cells m" by (simp add: m1_def)
  have step: "rc6_encrypt_round (A, B, C, D, int s, m) =
                Some (A', B', C', D', int (Suc (Suc s)), m1)"
    using Suc.prems by (subst rc6_encrypt_round_eq [of s k]) (simp_all add: r m1_def)
  have ih: "loop n rc6_encrypt_round (A', B', C', D', int (Suc (Suc s)), m1) =
     (case fold (spec_rc6_round (cells m1)) [Suc k..<Suc k + n] (A', B', C', D') of
        (A'', B'', C'', D'') \<Rightarrow>
        Some (A'', B'', C'', D'', int (Suc (Suc s) + 2 * n),
              m1\<lparr>reads := reads m1 @ map int [Suc (Suc s)..<Suc (Suc s) + 2 * n]\<rparr>))"
    using Suc.prems by (intro Suc.IH) (simp_all add: m1)
  have upt: "[k..<k + Suc n] = k # [Suc k..<Suc k + n]"
    by (simp add: upt_conv_Cons)
  have tr: "[s..<s + 2 * Suc n] = s # Suc s # [Suc (Suc s)..<Suc (Suc s) + 2 * n]"
    using upt_two [of s "s + 2 * Suc n"] by simp
  have e: "int (s + 2 * Suc n) = int (Suc (Suc s) + 2 * n)" by simp
  have fin: "m1\<lparr>reads := reads m1 @ xs\<rparr> = m\<lparr>reads := reads m @ int s # int (Suc s) # xs\<rparr>"
    for xs by (simp add: m1_def)
  have "loop (Suc n) rc6_encrypt_round (A, B, C, D, int s, m) =
        loop n rc6_encrypt_round (A', B', C', D', int (Suc (Suc s)), m1)"
    by (rule loop_Suc_Some) (rule step)
  then show ?case
    unfolding ih upt tr e fin m1
    by (simp add: r)
qed

lemma rc6_encrypt_eq:
  assumes "0 \<le> r" "r mod 4 = 0" "2 * r + 4 \<le> int (length (cells m))"
  shows "rc6_encrypt h m w r p =
         Some (norm4 h (spec_rc6_encrypt (cells m) (nat r) (norm4 h p)),
               m\<lparr>reads := reads m @ map int [0..<2 * nat r + 4]\<rparr>)"
proof -
  obtain p0 p1 p2 p3 where p: "p = (p0, p1, p2, p3)" by (cases p)
  define e where "e = 2 + 2 * nat r"
  define m1 where "m1 = m\<lparr>reads := reads m @ [0, 1]\<rparr>"
  define m2 where "m2 = m1\<lparr>reads := reads m1 @ map int [2..<e]\<rparr>"
  have len: "4 + 2 * nat r \<le> length (cells m)" using assms by linarith
  have len0: "0 < length (cells m)" "1 < length (cells m)"
    "e < length (cells m)" "Suc e < length (cells m)"
    using len unfolding e_def by linarith+
  have 1: "rd m 0 = Some (cells m ! 0, m\<lparr>reads := reads m @ [0]\<rparr>)"
    using rd_nat [OF len0(1)] by simp
  have 2: "rd (m\<lparr>reads := reads m @ [0]\<rparr>) 1 = Some (cells m ! 1, m1)"
    using len0 rd_nat [of 1 "m\<lparr>reads := reads m @ [0]\<rparr>"] by (simp add: m1_def)
  have "loop (nat r) rc6_encrypt_round (A, B, C, D, int 2, m1) =
     (case fold (spec_rc6_round (cells m1)) [0..<0 + nat r] (A, B, C, D) of
        (A', B', C', D') \<Rightarrow>
        Some (A', B', C', D', int (2 + 2 * nat r),
              m1\<lparr>reads := reads m1 @ map int [2..<2 + 2 * nat r]\<rparr>))" for A B C D
    using len by (intro rc6_encrypt_rounds) (simp_all add: m1_def)
  then have lp: "loop (nat (r sdiv 4)) (loop 4 rc6_encrypt_round) (A, B, C, D, 2, m1) =
     (case fold (spec_rc6_round (cells m)) [0..<nat r] (A, B, C, D) of
        (A', B', C', D') \<Rightarrow> Some (A', B', C', D', int e, m2))" for A B C D
    unfolding loop_unrolled [OF assms(1,2)] e_def [symmetric] m2_def [symmetric]
    by (simp add: m1_def)
  have 3: "rd m2 (int e) = Some (cells m ! e, m2\<lparr>reads := reads m2 @ [int e]\<rparr>)"
    using rd_nat [of e m2] len0 by (simp add: m2_def m1_def)
  have 4: "rd (m2\<lparr>reads := reads m2 @ [int e]\<rparr>) (int e + 1) =
           Some (cells m ! Suc e, m2\<lparr>reads := reads m2 @ [int e, int (Suc e)]\<rparr>)"
    using rd_nat_plus1 [of e "m2\<lparr>reads := reads m2 @ [int e]\<rparr>"] len0
    by (simp add: m2_def m1_def)
  have "2 * nat r + 4 = Suc (Suc e)" by (simp add: e_def)
  moreover have "[0..<Suc (Suc e)] = [0..<e] @ [e, Suc e]" by simp
  moreover have "[0..<e] = 0 # 1 # [2..<e]"
    using upt_two [of 0 e] unfolding e_def numeral_2_eq_2 by simp
  ultimately have "[0..<2 * nat r + 4] = 0 # 1 # [2..<e] @ [e, Suc e]"
    by (simp only: append_Cons)
  then have fin: "m\<lparr>reads := reads m @ map int [0..<2 * nat r + 4]\<rparr> =
                  m2\<lparr>reads := reads m2 @ [int e, int (Suc e)]\<rparr>"
    by (simp add: m1_def m2_def)
  have idx: "2 * nat r + 2 = e" "2 * nat r + 3 = Suc e" by (simp_all add: e_def)
  define n where "n = bswap_if_be h"
  obtain A B C D where
    f: "fold (spec_rc6_round (cells m)) [0..<nat r]
          (n p0, n p1 + cells m ! 0, n p2, n p3 + cells m ! 1) = (A, B, C, D)"
    by (cases "fold (spec_rc6_round (cells m)) [0..<nat r]
          (n p0, n p1 + cells m ! 0, n p2, n p3 + cells m ! 1)")
  have lp': "loop (nat (r sdiv 4)) (loop 4 rc6_encrypt_round)
               (n p0, n p1 + cells m ! 0, n p2, n p3 + cells m ! 1, 0 + 2, m1) =
             Some (A, B, C, D, int e, m2)"
    using lp [of "n p0" "n p1 + cells m ! 0" "n p2" "n p3 + cells m ! 1"]
    unfolding f by simp
  have r2: "rd (m\<lparr>reads := reads m @ [0]\<rparr>) (0 + 1) = Some (cells m ! 1, m1)"
    using 2 by simp
  have lhs: "rc6_encrypt h m w r (p0, p1, p2, p3) =
             Some ((n (A + cells m ! e), n B, n (C + cells m ! Suc e), n D),
                   m2\<lparr>reads := reads m2 @ [int e, int (Suc e)]\<rparr>)"
    unfolding rc6_encrypt.simps Let_def n_def [symmetric] 1 r2 lp' 3 4
      Option.bind_lunit prod.case ..
  have rhs: "norm4 h (spec_rc6_encrypt (cells m) (nat r) (norm4 h (p0, p1, p2, p3))) =
             (n (A + cells m ! e), n B, n (C + cells m ! Suc e), n D)"
    unfolding norm4_def spec_rc6_encrypt_def n_def [symmetric] idx prod.case f Let_def ..
  show ?thesis
    unfolding p lhs rhs fin ..
qed

lemma rc6_decrypt_round_eq:
  assumes "c = 2 * j + 3" "c < length (cells m)"
  shows "rc6_decrypt_round (A, B, C, D, int c, m) =
         (case rc6_round_inv (cells m) j (A, B, C, D) of (A', B', C', D') \<Rightarrow>
            Some (A', B', C', D', int (c - 2),
                  m\<lparr>reads := reads m @ [int c, int (c - 1)]\<rparr>))"
proof -
  have 1: "rd m (int c) = Some (cells m ! c, m\<lparr>reads := reads m @ [int c]\<rparr>)"
    using assms by (intro rd_nat) simp
  have 2: "rd (m\<lparr>reads := reads m @ [int c]\<rparr>) (int c - 1) =
             Some (cells m ! (c - 1), m\<lparr>reads := reads m @ [int c, int (c - 1)]\<rparr>)"
    using assms rd_nat [of "c - 1" "m\<lparr>reads := reads m @ [int c]\<rparr>"]
    by (simp add: of_nat_diff)
  have s: "2 * j + 3 = c" "2 * j + 2 = c - 1" using assms by simp_all
  have e: "int c - 2 = int (c - 2)" using assms by (simp add: of_nat_diff)
  show ?thesis
    unfolding rc6_decrypt_round_def rc6_round_inv_def spec_f_def s
    by (simp add: 1 2 e Let_def rotr_amount rotl_LGW)
qed

lemma rc6_decrypt_rounds:
  "t = 2 * k + 1 \<Longrightarrow> t + 2 * n < length (cells m) \<Longrightarrow>
   loop n rc6_decrypt_round (A, B, C, D, int (t + 2 * n), m) =
     (case fold (rc6_round_inv (cells m)) (rev [k..<k + n]) (A, B, C, D) of
        (A', B', C', D') \<Rightarrow>
        Some (A', B', C', D', int t,
              m\<lparr>reads := reads m @ rev (map int [Suc t..<Suc t + 2 * n])\<rparr>))"
proof (induction n arbitrary: A B C D m)
  case 0
  then show ?case by simp
next
  case (Suc n)
  define c where "c = t + 2 * Suc n"
  define m1 where "m1 = m\<lparr>reads := reads m @ [int c, int (c - 1)]\<rparr>"
  obtain A' B' C' D' where
    r: "rc6_round_inv (cells m) (k + n) (A, B, C, D) = (A', B', C', D')"
    by (cases "rc6_round_inv (cells m) (k + n) (A, B, C, D)")
  have m1: "cells m1 = cells m" by (simp add: m1_def)
  have step: "rc6_decrypt_round (A, B, C, D, int c, m) =
                Some (A', B', C', D', int (t + 2 * n), m1)"
    using Suc.prems
    by (subst rc6_decrypt_round_eq [of c "k + n"]) (simp_all add: r c_def m1_def)
  have ih: "loop n rc6_decrypt_round (A', B', C', D', int (t + 2 * n), m1) =
     (case fold (rc6_round_inv (cells m1)) (rev [k..<k + n]) (A', B', C', D') of
        (A'', B'', C'', D'') \<Rightarrow>
        Some (A'', B'', C'', D'', int t,
              m1\<lparr>reads := reads m1 @ rev (map int [Suc t..<Suc t + 2 * n])\<rparr>))"
    using Suc.prems by (intro Suc.IH) (simp_all add: m1)
  have upt: "rev [k..<k + Suc n] = (k + n) # rev [k..<k + n]"
    by simp
  have tr: "rev (map int [Suc t..<Suc t + 2 * Suc n]) =
              int c # int (c - 1) # rev (map int [Suc t..<Suc t + 2 * n])"
    by (simp add: c_def)
  have fin: "m1\<lparr>reads := reads m1 @ xs\<rparr> = m\<lparr>reads := reads m @ int c # int (c - 1) # xs\<rparr>"
    for xs by (simp add: m1_def)
  have "loop (Suc n) rc6_decrypt_round (A, B, C, D, int c, m) =
        loop n rc6_decrypt_round (A', B', C', D', int (t + 2 * n), m1)"
    by (rule loop_Suc_Some) (rule step)
  then show ?case
    unfolding ih upt tr c_def [symmetric] fin m1
    by (simp add: r)
qed

lemma rc6_decrypt_eq:
  assumes "0 \<le> r" "r mod 4 = 0" "2 * r + 4 \<le> int (length (cells m))"
  shows "rc6_decrypt h m w r c =
         Some (norm4 h (rc6_decrypt_value (cells m) (nat r) (norm4 h c)),
               m\<lparr>reads := reads m @ rev (map int [0..<2 * nat r + 4])\<rparr>)"
proof -
  obtain c0 c1 c2 c3 where c: "c = (c0, c1, c2, c3)" by (cases c)
  define e where "e = 2 + 2 * nat r"
  define t where "t = 1 + 2 * nat r"
  define m1 where "m1 = m\<lparr>reads := reads m @ [int (Suc e), int e]\<rparr>"
  define m2 where "m2 = m1\<lparr>reads := reads m1 @ rev (map int [2..<e])\<rparr>"
  have len: "4 + 2 * nat r \<le> length (cells m)" using assms by linarith
  have len0: "0 < length (cells m)" "1 < length (cells m)"
    "e < length (cells m)" "Suc e < length (cells m)"
    using len unfolding e_def by linarith+
  have start: "2 * r + 3 = int (Suc e)" "int (Suc e) - 1 = int e" "int (Suc e) - 2 = int t"
    using assms by (simp_all add: e_def t_def)
  have 1: "rd m (int (Suc e)) =
           Some (cells m ! Suc e, m\<lparr>reads := reads m @ [int (Suc e)]\<rparr>)"
    using len0 by (intro rd_nat) simp
  have 2: "rd (m\<lparr>reads := reads m @ [int (Suc e)]\<rparr>) (int e) = Some (cells m ! e, m1)"
    using len0 rd_nat [of e "m\<lparr>reads := reads m @ [int (Suc e)]\<rparr>"] by (simp add: m1_def)
  have "loop (nat r) rc6_decrypt_round (A, B, C, D, int (1 + 2 * nat r), m1) =
     (case fold (rc6_round_inv (cells m1)) (rev [0..<0 + nat r]) (A, B, C, D) of
        (A', B', C', D') \<Rightarrow>
        Some (A', B', C', D', int 1,
          m1\<lparr>reads := reads m1 @ rev (map int [Suc 1..<Suc 1 + 2 * nat r])\<rparr>))"
    for A B C D
    using len by (intro rc6_decrypt_rounds) (simp_all add: m1_def)
  then have lp: "loop (nat (r sdiv 4)) (loop 4 rc6_decrypt_round) (A, B, C, D, int t, m1) =
     (case fold (rc6_round_inv (cells m)) (rev [0..<nat r]) (A, B, C, D) of
        (A', B', C', D') \<Rightarrow> Some (A', B', C', D', 1, m2))" for A B C D
    unfolding loop_unrolled [OF assms(1,2)] t_def m2_def e_def
    by (simp add: numeral_2_eq_2 m1_def del: upt_Suc)
  have 3: "rd m2 1 = Some (cells m ! 1, m2\<lparr>reads := reads m2 @ [1]\<rparr>)"
    using rd_nat [of 1 m2] len0 by (simp add: m2_def m1_def)
  have 4: "rd (m2\<lparr>reads := reads m2 @ [1]\<rparr>) 0 =
           Some (cells m ! 0, m2\<lparr>reads := reads m2 @ [1, 0]\<rparr>)"
    using rd_nat [of 0 "m2\<lparr>reads := reads m2 @ [1]\<rparr>"] len0 by (simp add: m2_def m1_def)
  have "2 * nat r + 4 = Suc (Suc e)" by (simp add: e_def)
  moreover have "[0..<Suc (Suc e)] = [0..<e] @ [e, Suc e]" by simp
  moreover have "[0..<e] = 0 # 1 # [2..<e]"
    using upt_two [of 0 e] unfolding e_def numeral_2_eq_2 by simp
  ultimately have "[0..<2 * nat r + 4] = 0 # 1 # [2..<e] @ [e, Suc e]"
    by (simp only: append_Cons)
  then have fin: "m\<lparr>reads := reads m @ rev (map int [0..<2 * nat r + 4])\<rparr> =
                  m2\<lparr>reads := reads m2 @ [1, 0]\<rparr>"
    by (simp add: m1_def m2_def)
  have idx: "2 * nat r + 2 = e" "2 * nat r + 3 = Suc e" by (simp_all add: e_def)
  define n where "n = bswap_if_be h"
  obtain A B C D where
    f: "fold (rc6_round_inv (cells m)) (rev [0..<nat r])
          (n c0 - cells m ! e, n c1, n c2 - cells m ! Suc e, n c3) = (A, B, C, D)"
    by (cases "fold (rc6_round_inv (cells m)) (rev [0..<nat r])
          (n c0 - cells m ! e, n c1, n c2 - cells m ! Suc e, n c3)")
  have lp': "loop (nat (r sdiv 4)) (loop 4 rc6_decrypt_round)
               (n c0 - cells m ! e, n c1, n c2 - cells m ! Suc e, n c3, int t, m1) =
             Some (A, B, C, D, 1, m2)"
    using lp [of "n c0 - cells m ! e" "n c1" "n c2 - cells m ! Suc e" "n c3"]
    unfolding f by simp
  have r4: "rd (m2\<lparr>reads := reads m2 @ [1]\<rparr>) (1 - 1) =
           Some (cells m ! 0, m2\<lparr>reads := reads m2 @ [1, 0]\<rparr>)"
    using 4 by simp
  have lhs: "rc6_decrypt h m w r (c0, c1, c2, c3) =
             Some ((n A, n (B - cells m ! 0), n C, n (D - cells m ! 1)),
                   m2\<lparr>reads := reads m2 @ [1, 0]\<rparr>)"
    unfolding rc6_decrypt.simps Let_def n_def [symmetric] start 1 2 lp' 3 r4
      Option.bind_lunit prod.case ..
  have rhs: "norm4 h (rc6_decrypt_value (cells m) (nat r) (norm4 h (c0, c1, c2, c3))) =
             (n A, n (B - cells m ! 0), n C, n (D - cells m ! 1))"
    unfolding norm4_def rc6_decrypt_value_def n_def [symmetric] idx prod.case f Let_def ..
  show ?thesis
    unfolding c lhs rhs fin ..
qed

lemma rc6_round_inv_round [simp]: "rc6_round_inv S k (spec_rc6_round S k x) = x"
  by (cases x) (simp add: rc6_round_inv_def spec_rc6_round_def Let_def)

lemma rc6_decrypt_value_encrypt [simp]:
  "rc6_decrypt_value S r (spec_rc6_encrypt S r p) = p"
proof -
  obtain p0 p1 p2 p3 where p: "p = (p0, p1, p2, p3)" by (cases p)
  define x where "x = (p0, p1 + S ! 0, p2, p3 + S ! 1)"
  obtain A B C D where f: "fold (spec_rc6_round S) [0..<r] x = (A, B, C, D)"
    by (cases "fold (spec_rc6_round S) [0..<r] x")
  have "fold (rc6_round_inv S) (rev [0..<r]) (fold (spec_rc6_round S) [0..<r] x) = x"
    by (rule fold_inverse) simp
  then have g: "fold (rc6_round_inv S) (rev [0..<r]) (A, B, C, D) = x"
    by (simp only: f)
  have enc: "spec_rc6_encrypt S r p = (A + S ! (2 * r + 2), B, C + S ! (2 * r + 3), D)"
    unfolding p spec_rc6_encrypt_def using f by (simp add: x_def)
  show ?thesis
    unfolding enc rc6_decrypt_value_def by (simp add: g) (simp add: x_def p)
qed

section \<open>Key bytes to key words\<close>

lemma nth_chk_nat: "i < length xs \<Longrightarrow> nth_chk xs (int i) = Some (xs ! i)"
  by (simp add: nth_chk_def)

lemma upd_chk_nat: "i < length xs \<Longrightarrow> upd_chk xs (int i) v = Some (xs[i := v])"
  by (simp add: upd_chk_def)

lemma sdiv_8_nat: "int i sdiv sizeof_WORD = int (i div 8)"
  by (simp add: signed_divide_int_def sizeof_WORD_def sgn_if zdiv_int)

lemma smod_8_nat: "int i smod sizeof_WORD = int (i mod 8)"
  by (simp add: signed_modulo_int_def sizeof_WORD_def sgn_if zmod_int)

lemma div_mod_8_eq: "i' div 8 = i div 8 \<Longrightarrow> i' mod 8 = i mod 8 \<Longrightarrow> i' = (i :: nat)"
  by (metis div_mult_mod_eq)

lemma poke_char_eq:
  assumes "i < 8 * length L"
  shows "poke_char h L (int i) c =
         Some (L[i div 8 := object_val h ((object_rep h 8 (L ! (i div 8)))[i mod 8 := c])])"
proof -
  have d: "i div 8 < length L" using assms by simp
  show ?thesis
    unfolding poke_char_def sdiv_8_nat smod_8_nat
    by (simp add: nth_chk_nat upd_chk_nat d Let_def)
qed

lemma mem_byte_poke:
  assumes "i < 8 * length L" "i' < 8 * length L"
  shows "mem_byte h (L[i div 8 := object_val h ((object_rep h 8 (L ! (i div 8)))[i mod 8 := c])]) i' =
         (if i' = i then c else mem_byte h L i')"
proof (cases "i' div 8 = i div 8")
  case True
  define rep where "rep = object_rep h 8 (L ! (i div 8))"
  have d: "i div 8 < length L" using assms by simp
  have len: "length (rep[i mod 8 := c]) = 8" by (simp add: rep_def)
  have "mem_byte h (L[i div 8 := object_val h (rep[i mod 8 := c])]) i' =
        object_rep h 8 (object_val h (rep[i mod 8 := c]) :: WORD) ! (i' mod 8)"
    unfolding mem_byte_def True using d by simp
  also have "\<dots> = (rep[i mod 8 := c]) ! (i' mod 8)"
    by (simp only: object_rep_val [OF len])
  also have "\<dots> = (if i mod 8 = i' mod 8 then c else rep ! (i' mod 8))"
    by (simp add: nth_list_update rep_def)
  also have "rep ! (i' mod 8) = mem_byte h L i'"
    by (simp add: rep_def mem_byte_def True)
  also have "i mod 8 = i' mod 8 \<longleftrightarrow> i' = i"
    using True div_mod_8_eq [of i' i] by auto
  finally show ?thesis unfolding rep_def .
next
  case False
  then have "i' \<noteq> i" by auto
  then show ?thesis using False by (simp add: mem_byte_def)
qed

lemma setup_copy_key_eq:
  "n = b - i \<Longrightarrow> i \<le> b \<Longrightarrow> b \<le> 8 * length L \<Longrightarrow> b \<le> length key \<Longrightarrow>
   \<exists>L'. setup_copy_key h (int i) (int b) key L = Some L' \<and> length L' = length L \<and>
        (\<forall>i' < 8 * length L.
           mem_byte h L' i' = (if i \<le> i' \<and> i' < b then key ! i' else mem_byte h L i'))"
proof (induction n arbitrary: i L)
  case 0
  then have "i = b" by simp
  then show ?case by (subst setup_copy_key.simps) auto
next
  case (Suc n)
  then have i: "i < b" "i < 8 * length L" "i < length key" by simp_all
  define L1 where
    "L1 = L[i div 8 := object_val h ((object_rep h 8 (L ! (i div 8)))[i mod 8 := key ! i])]"
  have len1: "length L1 = length L" by (simp add: L1_def)
  have step: "setup_copy_key h (int i) (int b) key L = setup_copy_key h (int (Suc i)) (int b) key L1"
    using i by (subst setup_copy_key.simps)
      (simp add: nth_chk_nat poke_char_eq L1_def add.commute)
  have "\<exists>L'. setup_copy_key h (int (Suc i)) (int b) key L1 = Some L' \<and>
      length L' = length L1 \<and>
      (\<forall>i' < 8 * length L1.
         mem_byte h L' i' = (if Suc i \<le> i' \<and> i' < b then key ! i' else mem_byte h L1 i'))"
    by (rule Suc.IH) (use Suc.prems len1 in simp_all)
  then obtain L' where L': "setup_copy_key h (int (Suc i)) (int b) key L1 = Some L'"
    "length L' = length L1"
    "\<forall>i' < 8 * length L1.
       mem_byte h L' i' = (if Suc i \<le> i' \<and> i' < b then key ! i' else mem_byte h L1 i')"
    by blast
  have "mem_byte h L' i' = (if i \<le> i' \<and> i' < b then key ! i' else mem_byte h L i')"
    if "i' < 8 * length L" for i'
    using that L'(3) len1 mem_byte_poke [OF i(2) that, of h "key ! i"] i(1)
    by (auto simp: L1_def)
  then show ?case using step L' len1 by simp
qed

lemma setup_bswap_key_eq:
  "n = N - i \<Longrightarrow> i \<le> N \<Longrightarrow> N \<le> length L \<Longrightarrow>
   \<exists>L'. setup_bswap_key h (int i) (int N) L = Some L' \<and> length L' = length L \<and>
        (\<forall>j < length L. L' ! j = (if i \<le> j \<and> j < N then bswap_if_be h (L ! j) else L ! j))"
proof (induction n arbitrary: i L)
  case 0
  then have "i = N" by simp
  then show ?case by (subst setup_bswap_key.simps) auto
next
  case (Suc n)
  then have i: "i < N" "i < length L" by simp_all
  define L1 where "L1 = L[i := bswap_if_be h (L ! i)]"
  have len1: "length L1 = length L" by (simp add: L1_def)
  have step: "setup_bswap_key h (int i) (int N) L = setup_bswap_key h (int (Suc i)) (int N) L1"
    using i by (subst setup_bswap_key.simps)
      (simp add: nth_chk_nat upd_chk_nat L1_def add.commute)
  have "\<exists>L'. setup_bswap_key h (int (Suc i)) (int N) L1 = Some L' \<and>
      length L' = length L1 \<and>
      (\<forall>j < length L1.
         L' ! j = (if Suc i \<le> j \<and> j < N then bswap_if_be h (L1 ! j) else L1 ! j))"
    by (rule Suc.IH) (use Suc.prems len1 in simp_all)
  then obtain L' where L': "setup_bswap_key h (int (Suc i)) (int N) L1 = Some L'"
    "length L' = length L1"
    "\<forall>j < length L1. L' ! j = (if Suc i \<le> j \<and> j < N then bswap_if_be h (L1 ! j) else L1 ! j)"
    by blast
  have "L' ! j = (if i \<le> j \<and> j < N then bswap_if_be h (L ! j) else L ! j)"
    if "j < length L" for j
    using that L'(3) len1 i by (auto simp: L1_def nth_list_update)
  then show ?case using step L' len1 by simp
qed

text \<open>A word is the sum of its bytes, least significant first.\<close>

lemma ucast_or_push_bit_8:
  "(ucast (c :: byte) :: WORD) OR push_bit 8 x = ucast c + 2 ^ 8 * x"
proof -
  have "(ucast c :: WORD) AND push_bit 8 x = 0"
    by (rule bit_word_eqI) (auto simp: bit_simps dest: bit_imp_le_length)
  then have "(ucast c :: WORD) + push_bit 8 x = ucast c OR push_bit 8 x"
    by (rule disjunctive_add_eq_or)
  then show ?thesis by (simp add: push_bit_eq_mult mult.commute)
qed

lemma sum_list_upt_Suc_shift:
  "(\<Sum>k\<leftarrow>[0..<Suc n]. f k) = f 0 + (\<Sum>k\<leftarrow>[0..<n]. f (Suc k) :: WORD)"
proof -
  have "[0..<Suc n] = 0 # map Suc [0..<n]"
    by (simp add: upt_conv_Cons map_Suc_upt del: upt_Suc)
  then show ?thesis by (simp add: comp_def del: upt_Suc)
qed

lemma word_le_sum:
  "(word_le bs :: WORD) = (\<Sum>k\<leftarrow>[0..<length bs]. ucast (bs ! k) * 2 ^ (8 * k))"
proof (induction bs)
  case Nil
  then show ?case by simp
next
  case (Cons c cs)
  define f where "f k = (ucast ((c # cs) ! k) * 2 ^ (8 * k) :: WORD)" for k
  define g where "g k = (ucast (cs ! k) * 2 ^ (8 * k) :: WORD)" for k
  have fg: "f (Suc k) = 2 ^ 8 * g k" for k
    by (simp add: f_def g_def power_add)
  have len: "length (c # cs) = Suc (length cs)" by simp
  have "(\<Sum>k\<leftarrow>[0..<length (c # cs)]. f k) = f 0 + (\<Sum>k\<leftarrow>[0..<length cs]. f (Suc k))"
    unfolding len by (rule sum_list_upt_Suc_shift)
  also have "\<dots> = ucast c + 2 ^ 8 * (\<Sum>k\<leftarrow>[0..<length cs]. g k)"
    unfolding fg sum_list_const_mult by (simp add: f_def)
  also have "\<dots> = word_le (c # cs)"
    unfolding word_le.simps ucast_or_push_bit_8 Cons.IH g_def ..
  finally show ?case unfolding f_def by simp
qed

lemma bswap_if_be_word_le: "bswap_if_be h x = word_le (object_rep h 8 x)"
  using bswap_if_be_object_val [of "object_rep h 8 x" h] by simp

lemma object_rep_0 [simp]: "k < 8 \<Longrightarrow> object_rep h 8 (0 :: WORD) ! k = 0"
proof -
  have "bytes_le 8 (0 :: WORD) = replicate 8 0"
    by (simp add: numeral_eq_Suc)
  then show "k < 8 \<Longrightarrow> object_rep h 8 (0 :: WORD) ! k = 0"
    by (cases h) (simp_all add: object_rep_def)
qed

lemma spec_key_word_word_le:
  "spec_key_word b key j = word_le (map (\<lambda>k. spec_key_byte b key (8 * j + k)) [0..<8])"
proof -
  have len: "length (map (\<lambda>k. spec_key_byte b key (8 * j + k)) [0..<8]) = 8"
    by simp
  have eq: "map (\<lambda>k. ucast (map (\<lambda>k. spec_key_byte b key (8 * j + k)) [0..<8] ! k) * 2 ^ (8 * k))
          [0..<8] =
        map (\<lambda>k. ucast (spec_key_byte b key (8 * j + k)) * (2 ^ (8 * k) :: WORD)) [0..<8]"
    by (rule map_cong) (simp_all del: upt_Suc)
  show ?thesis
    unfolding spec_key_word_def word_le_sum len eq ..
qed

lemma last_word_index:
  assumes "j < max 1 ((b + 7) div 8)" "k < 8" "\<not> 8 * j + k < (b :: nat)"
  shows "j = max 1 ((b + 7) div 8) - 1"
  using assms by (auto simp: max_def split: if_splits)

lemma L_words_nat:
  "max_c 1 ((int b + sizeof_WORD - 1) sdiv sizeof_WORD) = int (spec_L_words b)"
proof -
  have a: "int b + sizeof_WORD - 1 = int (b + 7)" by (simp add: sizeof_WORD_def)
  show ?thesis
    unfolding a sdiv_8_nat max_c_def spec_L_words_def by (auto simp: max_def)
qed

lemma spec_L_words_bounds: "b \<le> 255 \<Longrightarrow> 1 \<le> spec_L_words b \<and> spec_L_words b \<le> 32"
  by (simp add: spec_L_words_def)

lemma L_size: "nat (256 sdiv sizeof_WORD) = 32"
  by (simp add: sizeof_WORD_def signed_divide_int_def)

text \<open>
  The three steps that turn the key bytes into key words succeed, and leave the packed
  key in the first \<open>L_words\<close> words of \<open>L\<close>, whatever the host and whatever the
  array held before.
\<close>

lemma key_words_eq:
  assumes "b \<le> 255" "b \<le> length key"
  shows "\<exists>L3. setup_key h junk (int b) key = Some (int (spec_L_words b), L3) \<and>
           length L3 = 32 \<and>
           take (spec_L_words b) L3 = spec_key_words b key"
proof -
  define L0 where "L0 = map junk [0..<nat (256 sdiv sizeof_WORD)]"
  have len0: "length L0 = 32" by (simp add: L0_def L_size)
  define lw where "lw = spec_L_words b"
  have lw: "1 \<le> lw" "lw \<le> 32" using spec_L_words_bounds [OF assms(1)] by (simp_all add: lw_def)
  define L1 where "L1 = L0[lw - 1 := 0]"
  have len1: "length L1 = 32" by (simp add: L1_def len0)
  have "int lw - 1 = int (lw - 1)" using lw by simp
  then have 1: "upd_chk L0 (int lw - 1) 0 = Some L1"
    using upd_chk_nat [of "lw - 1" L0 0] lw len0 by (simp add: L1_def)
  have "\<exists>L'. setup_copy_key h (int 0) (int b) key L1 = Some L' \<and> length L' = length L1 \<and>
        (\<forall>i' < 8 * length L1.
           mem_byte h L' i' = (if 0 \<le> i' \<and> i' < b then key ! i' else mem_byte h L1 i'))"
    by (rule setup_copy_key_eq [where n = b]) (use assms len1 in simp_all)
  then obtain L2 where 2: "setup_copy_key h 0 (int b) key L1 = Some L2"
    and len2: "length L2 = 32"
    and b2: "\<And>i'. i' < 256 \<Longrightarrow>
               mem_byte h L2 i' = (if i' < b then key ! i' else mem_byte h L1 i')"
    using len1 by auto
  have "\<exists>L'. setup_bswap_key h (int 0) (int lw) L2 = Some L' \<and> length L' = length L2 \<and>
        (\<forall>j < length L2. L' ! j = (if 0 \<le> j \<and> j < lw then bswap_if_be h (L2 ! j) else L2 ! j))"
    by (rule setup_bswap_key_eq [where n = lw]) (use lw len2 in simp_all)
  then obtain L3 where 3: "setup_bswap_key h 0 (int lw) L2 = Some L3"
    and len3: "length L3 = 32"
    and b3: "\<And>j. j < lw \<Longrightarrow> L3 ! j = bswap_if_be h (L2 ! j)"
    using len2 lw by auto
  have word: "L3 ! j = spec_key_word b key j" if j: "j < lw" for j
  proof -
    have byte: "object_rep h 8 (L2 ! j) ! k = spec_key_byte b key (8 * j + k)" if k: "k < 8" for k
    proof -
      have i: "8 * j + k < 256" "(8 * j + k) div 8 = j" "(8 * j + k) mod 8 = k"
        using j k lw by simp_all
      have "object_rep h 8 (L2 ! j) ! k = mem_byte h L2 (8 * j + k)"
        unfolding mem_byte_def i ..
      also have "\<dots> = (if 8 * j + k < b then key ! (8 * j + k) else mem_byte h L1 (8 * j + k))"
        by (rule b2) (rule i)
      also have "\<dots> = spec_key_byte b key (8 * j + k)"
      proof (cases "8 * j + k < b")
        case True
        then show ?thesis by (simp add: spec_key_byte_def)
      next
        case False
        then have "j = lw - 1"
          using last_word_index [of j b k] j k by (simp add: lw_def spec_L_words_def)
        then have "L1 ! j = 0" using lw len0 by (simp add: L1_def)
        then have "mem_byte h L1 (8 * j + k) = 0"
          unfolding mem_byte_def i using k by simp
        then show ?thesis using False by (simp add: spec_key_byte_def)
      qed
      finally show ?thesis .
    qed
    have "object_rep h 8 (L2 ! j) = map (\<lambda>k. spec_key_byte b key (8 * j + k)) [0..<8]"
      by (rule nth_equalityI) (simp_all add: byte del: upt_Suc)
    then show ?thesis
      using b3 [OF j] by (simp only: bswap_if_be_word_le spec_key_word_word_le)
  qed
  have "take lw L3 = spec_key_words b key"
  proof (rule nth_equalityI)
    show "length (take lw L3) = length (spec_key_words b key)"
      using lw len3 by (simp add: spec_key_words_def lw_def)
  next
    fix j assume "j < length (take lw L3)"
    then have "j < lw" by simp
    then show "take lw L3 ! j = spec_key_words b key ! j"
      using word [of j] by (simp add: spec_key_words_def lw_def del: upt_Suc)
  qed
  moreover have "setup_key h junk (int b) key = Some (int lw, L3)"
    unfolding setup_key_def Let_def L0_def [symmetric] L_words_nat lw_def [symmetric]
    by (simp only: 1 2 3 Option.bind_lunit)
  ultimately show ?thesis
    using len3 unfolding lw_def by blast
qed

section \<open>Filling the table\<close>

lemma wr_nat:
  "i < length (cells m) \<Longrightarrow>
   wr m (int i) v = Some (m\<lparr>cells := (cells m)[i := v], writes := writes m @ [int i]\<rparr>)"
  by (simp add: wr_def)

lemma length_spec_fill [simp]: "length (spec_fill n) = n"
  by (induction n rule: spec_fill.induct) (simp_all add: Let_def)

lemma spec_fill_Suc: "1 \<le> n \<Longrightarrow> spec_fill (Suc n) = spec_fill n @ [last (spec_fill n) + Q]"
  by (cases n) (simp_all add: Let_def)

lemma last_take: "0 < i \<Longrightarrow> i \<le> length xs \<Longrightarrow> last (take i xs) = xs ! (i - 1)"
  by (cases i) (simp_all add: take_Suc_conv_app_nth)

lemma setup_fill_eq:
  "n = N - i \<Longrightarrow> 1 \<le> i \<Longrightarrow> i \<le> N \<Longrightarrow> length (cells S) = N \<Longrightarrow>
   take i (cells S) = spec_fill i \<Longrightarrow>
   setup_fill (int i) (int N) S =
     Some (S\<lparr>cells := spec_fill N,
              reads := reads S @ map int [i - 1..<N - 1],
              writes := writes S @ map int [i..<N]\<rparr>)"
proof (induction n arbitrary: i S)
  case 0
  then have "i = N" by simp
  then show ?case using 0 by (subst setup_fill.simps) simp
next
  case (Suc n)
  then have i: "i < N" "i - 1 < length (cells S)" "i < length (cells S)" by simp_all
  define x where "x = cells S ! (i - 1)"
  define S1 where "S1 = S\<lparr>reads := reads S @ [int (i - 1)]\<rparr>"
  define S2 where "S2 = S1\<lparr>cells := (cells S1)[i := x + Q], writes := writes S1 @ [int i]\<rparr>"
  have e: "int i - 1 = int (i - 1)" "int i + 1 = int (Suc i)" using Suc.prems by simp_all
  have r: "rd S (int (i - Suc 0)) = Some (x, S1)"
    using rd_nat [OF i(2)] by (simp add: x_def S1_def)
  have w: "wr S1 (int i) (x + Q) = Some S2"
    using wr_nat [of i S1 "x + Q"] i by (simp add: S1_def S2_def)
  have step: "setup_fill (int i) (int N) S = setup_fill (int (Suc i)) (int N) S2"
    using i(1) by (subst setup_fill.simps) (simp add: e r w del: of_nat_Suc)
  have "last (take i (cells S)) = x"
    unfolding x_def using i(3) Suc.prems(2) by (intro last_take) simp_all
  then have "last (spec_fill i) = x"
    using Suc.prems(5) by simp
  then have "take (Suc i) (cells S2) = spec_fill (Suc i)"
    using Suc.prems i
    by (simp add: S2_def S1_def take_Suc_conv_app_nth spec_fill_Suc)
  then have ih: "setup_fill (int (Suc i)) (int N) S2 =
     Some (S2\<lparr>cells := spec_fill N,
               reads := reads S2 @ map int [Suc i - 1..<N - 1],
               writes := writes S2 @ map int [Suc i..<N]\<rparr>)"
    using Suc.prems by (intro Suc.IH) (simp_all add: S2_def S1_def)
  have "[i - 1..<N - 1] = (i - 1) # [Suc i - 1..<N - 1]" "[i..<N] = i # [Suc i..<N]"
    using Suc.prems i(1) by (simp_all add: upt_conv_Cons)
  then show ?case
    unfolding step ih by (simp add: S2_def S1_def)
qed

section \<open>Mixing the key into the table\<close>

lemma max_c_nat: "max_c (int a) (int b) = int (max a b)"
  by (simp add: max_c_def max_def)

lemma mix_bound: "int k < 3 * max_c (int Lw) (int Sw) \<longleftrightarrow> k < 3 * max Lw Sw"
  unfolding max_c_nat by linarith

lemma setup_mix_step:
  assumes k: "k < 3 * max Lw Sw"
    and i: "i \<le> Sw" and j: "j \<le> Lw" and Sw: "1 \<le> Sw" and Lw: "1 \<le> Lw"
    and lenS: "length (cells S) = Sw" and lenL: "Lw \<le> length L"
  shows "\<exists>c2 L2 A1 B1.
           setup_mix (int i) (int j) (int k) (int Sw) (int Lw) A B S L =
           setup_mix (int (Suc (i mod Sw))) (int (Suc (j mod Lw))) (int (Suc k)) (int Sw) (int Lw)
             A1 B1
             (S\<lparr>cells := c2, reads := reads S @ [int (i mod Sw)],
                writes := writes S @ [int (i mod Sw)]\<rparr>) L2 \<and>
           spec_mix_step Sw Lw (cells S, take Lw L, A, B, i, j) =
             (c2, take Lw L2, A1, B1, Suc (i mod Sw), Suc (j mod Lw)) \<and>
           length c2 = Sw \<and> length L2 = length L"
proof -
  define i0 where "i0 = i mod Sw"
  define j0 where "j0 = j mod Lw"
  have i0: "i0 < Sw" "(if i = Sw then 0 else i) = i0"
    using i Sw by (simp_all add: i0_def)
  have j0: "j0 < Lw" "(if j = Lw then 0 else j) = j0"
    using j Lw by (simp_all add: j0_def)
  define x where "x = cells S ! i0"
  define A1 where "A1 = rotateLeft (x + A + B) 3"
  define S1 where "S1 = S\<lparr>reads := reads S @ [int i0]\<rparr>"
  define S2 where "S2 = S\<lparr>cells := (cells S)[i0 := A1], reads := reads S @ [int i0],
                           writes := writes S @ [int i0]\<rparr>"
  define y where "y = L ! j0"
  define B1 where "B1 = rotateLeft (y + A1 + B) (unat (A1 + B) mod W)"
  define L2 where "L2 = L[j0 := B1]"
  have r: "rd S (int i0) = Some (x, S1)"
    using rd_nat [of i0 S] i0 lenS by (simp add: x_def S1_def)
  have w: "wr S1 (int i0) v = Some (S\<lparr>cells := (cells S)[i0 := v], reads := reads S @ [int i0],
                           writes := writes S @ [int i0]\<rparr>)" for v
    using wr_nat [of i0 S1 v] i0 lenS by (simp add: S1_def)
  have rl: "nth_chk L (int j0) = Some y"
    using nth_chk_nat [of j0 L] j0 lenL by (simp add: y_def)
  have wl: "upd_chk L (int j0) v = Some (L[j0 := v])" for v
    using upd_chk_nat [of j0 L v] j0 lenL by simp
  have e: "int i0 + 1 = int (Suc i0)" "int j0 + 1 = int (Suc j0)" "int k + 1 = int (Suc k)"
    by simp_all
  have wi: "(if int i = int Sw then 0 else int i) = int i0"
    using i0(2) by (auto split: if_splits)
  have wj: "(if int j = int Lw then 0 else int j) = int j0"
    using j0(2) by (auto split: if_splits)
  have kk: "int k < 3 * max_c (int Lw) (int Sw)"
    using k unfolding mix_bound .
  have code: "setup_mix (int i) (int j) (int k) (int Sw) (int Lw) A B S L =
              setup_mix (int (Suc i0)) (int (Suc j0)) (int (Suc k)) (int Sw) (int Lw) A1 B1 S2 L2"
    apply (subst setup_mix.simps)
    unfolding Let_def wi wj r Option.bind_lunit prod.case rotl_3 rotl_amount w rl wl e
      A1_def [symmetric] B1_def [symmetric] S2_def [symmetric] L2_def [symmetric]
    using kk by (simp only: if_True)
  have "take Lw L ! j0 = y" using j0 by (simp add: y_def)
  moreover have "(take Lw L)[j0 := B1] = take Lw L2"
    by (simp add: L2_def take_update_swap)
  ultimately have spec: "spec_mix_step Sw Lw (cells S, take Lw L, A, B, i, j) =
             ((cells S)[i0 := A1], take Lw L2, A1, B1, Suc i0, Suc j0)"
    unfolding spec_mix_step_def prod.case Let_def i0(2) j0(2)
    by (simp add: A1_def B1_def x_def)
  show ?thesis
    using code spec lenS unfolding S2_def i0_def j0_def L2_def by auto
qed

lemma mix_trace:
  assumes "i \<le> Sw" "1 \<le> Sw"
  shows "map (\<lambda>t. int ((i + t) mod Sw)) [0..<Suc n] =
         int (i mod Sw) # map (\<lambda>t. int ((Suc (i mod Sw) + t) mod Sw)) [0..<n]"
proof -
  have "[0..<Suc n] = 0 # map Suc [0..<n]"
    by (simp add: upt_conv_Cons map_Suc_upt del: upt_Suc)
  moreover have "(i + Suc t) mod Sw = (Suc (i mod Sw) + t) mod Sw" for t
    by (metis add_Suc add_Suc_right mod_Suc_eq mod_add_left_eq)
  ultimately show ?thesis by (simp add: comp_def del: upt_Suc)
qed

lemma setup_mix_eq:
  "n = 3 * max Lw Sw - k \<Longrightarrow> k \<le> 3 * max Lw Sw \<Longrightarrow> i \<le> Sw \<Longrightarrow> j \<le> Lw \<Longrightarrow>
   1 \<le> Sw \<Longrightarrow> 1 \<le> Lw \<Longrightarrow> length (cells S) = Sw \<Longrightarrow> Lw \<le> length L \<Longrightarrow>
   \<exists>L'. setup_mix (int i) (int j) (int k) (int Sw) (int Lw) A B S L =
     Some (S\<lparr>cells := fst ((spec_mix_step Sw Lw ^^ n) (cells S, take Lw L, A, B, i, j)),
              reads := reads S @ map (\<lambda>t. int ((i + t) mod Sw)) [0..<n],
              writes := writes S @ map (\<lambda>t. int ((i + t) mod Sw)) [0..<n]\<rparr>, L')"
proof (induction n arbitrary: i j k A B S L)
  case 0
  then have "\<not> k < 3 * max Lw Sw" by simp
  then have "\<not> int k < 3 * max_c (int Lw) (int Sw)" unfolding mix_bound .
  then show ?case by (subst setup_mix.simps) simp
next
  case (Suc n)
  then have k: "k < 3 * max Lw Sw" by simp
  obtain c2 L2 A1 B1 where
    code: "setup_mix (int i) (int j) (int k) (int Sw) (int Lw) A B S L =
           setup_mix (int (Suc (i mod Sw))) (int (Suc (j mod Lw))) (int (Suc k)) (int Sw) (int Lw)
             A1 B1
             (S\<lparr>cells := c2, reads := reads S @ [int (i mod Sw)],
                writes := writes S @ [int (i mod Sw)]\<rparr>) L2"
    and spec: "spec_mix_step Sw Lw (cells S, take Lw L, A, B, i, j) =
             (c2, take Lw L2, A1, B1, Suc (i mod Sw), Suc (j mod Lw))"
    and len: "length c2 = Sw" "length L2 = length L"
    using setup_mix_step [OF k Suc.prems(3,4,5,6,7,8), of A B] by blast
  define S2 where "S2 = S\<lparr>cells := c2, reads := reads S @ [int (i mod Sw)],
                writes := writes S @ [int (i mod Sw)]\<rparr>"
  have S2: "cells S2 = c2" "reads S2 = reads S @ [int (i mod Sw)]"
    "writes S2 = writes S @ [int (i mod Sw)]"
    by (simp_all add: S2_def)
  have b: "Suc (i mod Sw) \<le> Sw" "Suc (j mod Lw) \<le> Lw"
    using Suc.prems(5,6) by (simp_all add: Suc_leI)
  have "\<exists>L'. setup_mix (int (Suc (i mod Sw))) (int (Suc (j mod Lw))) (int (Suc k))
                (int Sw) (int Lw) A1 B1 S2 L2 =
     Some (S2\<lparr>cells := fst ((spec_mix_step Sw Lw ^^ n)
                   (cells S2, take Lw L2, A1, B1, Suc (i mod Sw), Suc (j mod Lw))),
              reads := reads S2 @ map (\<lambda>t. int ((Suc (i mod Sw) + t) mod Sw)) [0..<n],
              writes := writes S2 @ map (\<lambda>t. int ((Suc (i mod Sw) + t) mod Sw)) [0..<n]\<rparr>, L')"
    by (rule Suc.IH) (use Suc.prems b len S2 in simp_all)
  then obtain L' where ih:
    "setup_mix (int (Suc (i mod Sw))) (int (Suc (j mod Lw))) (int (Suc k))
                (int Sw) (int Lw) A1 B1 S2 L2 =
     Some (S2\<lparr>cells := fst ((spec_mix_step Sw Lw ^^ n)
                   (cells S2, take Lw L2, A1, B1, Suc (i mod Sw), Suc (j mod Lw))),
              reads := reads S2 @ map (\<lambda>t. int ((Suc (i mod Sw) + t) mod Sw)) [0..<n],
              writes := writes S2 @ map (\<lambda>t. int ((Suc (i mod Sw) + t) mod Sw)) [0..<n]\<rparr>, L')"
    by blast
  have pow: "(spec_mix_step Sw Lw ^^ Suc n) (cells S, take Lw L, A, B, i, j) =
             (spec_mix_step Sw Lw ^^ n) (c2, take Lw L2, A1, B1, Suc (i mod Sw), Suc (j mod Lw))"
    unfolding funpow_Suc_right comp_def spec ..
  show ?case
    unfolding code S2_def [symmetric] ih pow mix_trace [OF Suc.prems(3,5)] S2(1)
    by (rule exI [of _ L']) (simp add: S2_def)
qed

section \<open>The whole key schedule\<close>

lemma length_spec_key_words [simp]: "length (spec_key_words b key) = spec_L_words b"
  by (simp add: spec_key_words_def)

lemma valid_not_rejected:
  assumes "w = 64" "0 \<le> (b :: int)" "b \<le> 255" "0 \<le> (r :: int)" "r \<le> 255" "r mod 4 = 0"
  shows "\<not> (WORD_SZ \<noteq> w \<or> b < 0 \<or> b > 255 \<or> r < 0 \<or> r > 255 \<or> r smod 4 \<noteq> 0)"
  using assms by (simp add: WORD_SZ_def smod_4_nonneg)

lemma setup_c_ok:
  assumes valid: "w = 64" "0 \<le> b" "b \<le> 255" "0 \<le> r" "r \<le> 255" "r mod 4 = 0"
    and Sw: "1 \<le> Sw" and lenS: "length (cells S) = nat Sw" and key: "nat b \<le> length key"
  shows "setup_c h junk S Sw w r b key =
         Some (0, S\<lparr>cells := spec_key_schedule (nat Sw) (spec_key_words (nat b) key),
                     reads := reads S @ map int [0..<nat Sw - 1] @
                       map (\<lambda>t. int (t mod nat Sw)) [0..<3 * max (spec_L_words (nat b)) (nat Sw)],
                     writes := writes S @ map int [0..<nat Sw] @
                       map (\<lambda>t. int (t mod nat Sw)) [0..<3 * max (spec_L_words (nat b)) (nat Sw)]\<rparr>)"
proof -
  define bn where "bn = nat b"
  define sw where "sw = nat Sw"
  define lw where "lw = spec_L_words bn"
  define N where "N = 3 * max lw sw"
  have b: "b = int bn" and S: "Sw = int sw" using valid Sw by (simp_all add: bn_def sw_def)
  have bn: "bn \<le> 255" "bn \<le> length key" using valid key by (simp_all add: bn_def)
  have sw: "1 \<le> sw" "length (cells S) = sw" using Sw lenS by (simp_all add: sw_def)
  have lw: "1 \<le> lw" "lw \<le> 32" using spec_L_words_bounds [OF bn(1)] by (simp_all add: lw_def)
  obtain L3 where
    k: "setup_key h junk (int bn) key = Some (int lw, L3)" and
    len3: "length L3 = 32" and
    words: "take lw L3 = spec_key_words bn key"
    using key_words_eq [OF bn, of h junk] unfolding lw_def by blast
  define S1 where "S1 = S\<lparr>cells := (cells S)[0 := P], writes := writes S @ [0]\<rparr>"
  have w0: "wr S 0 P = Some S1"
    using wr_nat [of 0 S P] sw by (simp add: S1_def)
  have "take 1 (cells S1) = spec_fill 1"
    using sw by (cases "cells S") (simp_all add: S1_def)
  then have "setup_fill (int 1) (int sw) S1 =
     Some (S1\<lparr>cells := spec_fill sw,
              reads := reads S1 @ map int [1 - 1..<sw - 1],
              writes := writes S1 @ map int [1..<sw]\<rparr>)"
    by (intro setup_fill_eq [where n = "sw - 1"]) (use sw in \<open>simp_all add: S1_def\<close>)
  moreover define S2 where "S2 = S\<lparr>cells := spec_fill sw,
              reads := reads S @ map int [0..<sw - 1],
              writes := writes S @ map int [0..<sw]\<rparr>"
  moreover have "[0..<sw] = 0 # [1..<sw]" using sw by (simp add: upt_conv_Cons)
  ultimately have fill: "setup_fill 1 (int sw) S1 = Some S2"
    by (simp add: S1_def)
  have S2: "cells S2 = spec_fill sw" "length (cells S2) = sw"
    "reads S2 = reads S @ map int [0..<sw - 1]" "writes S2 = writes S @ map int [0..<sw]"
    by (simp_all add: S2_def)
  have "\<exists>L'. setup_mix (int 0) (int 0) (int 0) (int sw) (int lw) 0 0 S2 L3 =
     Some (S2\<lparr>cells := fst ((spec_mix_step sw lw ^^ N) (cells S2, take lw L3, 0, 0, 0, 0)),
              reads := reads S2 @ map (\<lambda>t. int ((0 + t) mod sw)) [0..<N],
              writes := writes S2 @ map (\<lambda>t. int ((0 + t) mod sw)) [0..<N]\<rparr>, L')"
    by (rule setup_mix_eq) (use sw lw len3 S2 in \<open>simp_all add: N_def\<close>)
  then obtain L' where mix: "setup_mix 0 0 0 (int sw) (int lw) 0 0 S2 L3 =
     Some (S2\<lparr>cells := fst ((spec_mix_step sw lw ^^ N) (spec_fill sw, spec_key_words bn key, 0, 0, 0, 0)),
              reads := reads S2 @ map (\<lambda>t. int (t mod sw)) [0..<N],
              writes := writes S2 @ map (\<lambda>t. int (t mod sw)) [0..<N]\<rparr>, L')"
    unfolding S2(1) words by auto
  have sched: "spec_key_schedule sw (spec_key_words bn key) =
        fst ((spec_mix_step sw lw ^^ N) (spec_fill sw, spec_key_words bn key, 0, 0, 0, 0))"
    unfolding spec_key_schedule_def Let_def length_spec_key_words lw_def [symmetric] N_def ..
  have "setup_c h junk S (int sw) w r (int bn) key = Some (0,
          S2\<lparr>cells := fst ((spec_mix_step sw lw ^^ N) (spec_fill sw, spec_key_words bn key, 0, 0, 0, 0)),
              reads := reads S2 @ map (\<lambda>t. int (t mod sw)) [0..<N],
              writes := writes S2 @ map (\<lambda>t. int (t mod sw)) [0..<N]\<rparr>)"
    unfolding setup_c_def Let_def
    using valid_not_rejected [OF valid]
    by (simp only: b if_False k w0 fill mix Option.bind_lunit prod.case)
  then show ?thesis
    unfolding b [symmetric] S [symmetric] sched [symmetric]
    unfolding sw_def [symmetric] bn_def [symmetric] lw_def [symmetric] N_def [symmetric]
    by (simp add: S2_def)
qed

lemma length_spec_mix_step: "length (fst (spec_mix_step Sw Lw s)) = length (fst s)"
  by (cases s) (simp add: spec_mix_step_def Let_def)

lemma length_spec_mix_steps: "length (fst ((spec_mix_step Sw Lw ^^ n) s)) = length (fst s)"
  by (induction n) (simp_all add: length_spec_mix_step)

lemma length_spec_key_schedule [simp]: "length (spec_key_schedule n L) = n"
  by (simp add: spec_key_schedule_def Let_def length_spec_mix_steps)

section \<open>Rejected parameters\<close>

lemma rejected_iff:
  "WORD_SZ \<noteq> w \<or> b < 0 \<or> b > 255 \<or> r < 0 \<or> r > 255 \<or> r smod 4 \<noteq> 0 \<longleftrightarrow> unsupported w r b"
proof (cases "0 \<le> r")
  case True
  then show ?thesis
    by (auto simp: unsupported_def WORD_SZ_def W_def smod_4_nonneg)
next
  case False
  then show ?thesis by (simp add: unsupported_def)
qed

lemma setup_c_unsupported: "unsupported w r b \<Longrightarrow> setup_c h junk S Sw w r b key = Some (- 1, S)"
  unfolding setup_c_def rejected_iff by simp

lemma setup_c_supported:
  assumes "\<not> unsupported w r b" "setup_c h junk S Sw w r b key = Some (rc, S')"
  shows "rc = 0"
  using assms unfolding setup_c_def rejected_iff
  by (auto simp: Let_def split: Option.bind_splits)

lemma supported_valid:
  "\<not> unsupported w r b \<longleftrightarrow> w = 64 \<and> 0 \<le> b \<and> b \<le> 255 \<and> 0 \<le> r \<and> r \<le> 255 \<and> r mod 4 = 0"
  by (auto simp: unsupported_def W_def)

section \<open>Blocks as bytes\<close>

lemma load_WORD_norm:
  assumes "8 * i + 8 \<le> length buf"
  shows "\<exists>x. load_WORD h buf i = Some x \<and> bswap_if_be h x = word_le (take 8 (drop (8 * i) buf))"
proof -
  have "length (take 8 (drop (8 * i) buf)) = 8" using assms by simp
  then show ?thesis
    using assms by (simp add: load_WORD_def bswap_if_be_object_val)
qed

lemma rc5_encrypt_bytes_eq:
  assumes "0 \<le> r" "r mod 4 = 0" "2 * r + 2 \<le> int (length (cells S))" "16 \<le> length pt"
  shows "rc5_encrypt_bytes h S w r pt =
         (case spec_rc5_encrypt (cells S) (nat r)
                 (word_le (take 8 (drop (8 * 0) pt)), word_le (take 8 (drop (8 * 1) pt))) of
            (A, B) \<Rightarrow> Some (bytes_le 8 A @ bytes_le 8 B,
                             S\<lparr>reads := reads S @ map int [0..<2 * nat r + 2]\<rparr>))"
proof -
  obtain p0 where p0: "load_WORD h pt 0 = Some p0"
    "bswap_if_be h p0 = word_le (take 8 (drop (8 * 0) pt))"
    using load_WORD_norm [of 0 pt h] assms(4) by auto
  obtain p1 where p1: "load_WORD h pt 1 = Some p1"
    "bswap_if_be h p1 = word_le (take 8 (drop (8 * 1) pt))"
    using load_WORD_norm [of 1 pt h] assms(4) by auto
  obtain A B where s: "spec_rc5_encrypt (cells S) (nat r)
      (word_le (take 8 (drop (8 * 0) pt)), word_le (take 8 (drop (8 * 1) pt))) = (A, B)"
    by (cases "spec_rc5_encrypt (cells S) (nat r)
      (word_le (take 8 (drop (8 * 0) pt)), word_le (take 8 (drop (8 * 1) pt)))")
  have e: "rc5_encrypt h S w r (p0, p1) =
        Some ((bswap_if_be h A, bswap_if_be h B),
              S\<lparr>reads := reads S @ map int [0..<2 * nat r + 2]\<rparr>)"
    unfolding rc5_encrypt_eq [OF assms(1-3)] norm2_def prod.case p0(2) p1(2) s ..
  show ?thesis
    unfolding rc5_encrypt_bytes_def p0(1) p1(1) s e Option.bind_lunit prod.case
      object_rep_bswap_if_be ..
qed

lemma rc6_encrypt_bytes_eq:
  assumes "0 \<le> r" "r mod 4 = 0" "2 * r + 4 \<le> int (length (cells S))" "32 \<le> length pt"
  shows "rc6_encrypt_bytes h S w r pt =
         (case spec_rc6_encrypt (cells S) (nat r)
                 (word_le (take 8 (drop (8 * 0) pt)), word_le (take 8 (drop (8 * 1) pt)),
                  word_le (take 8 (drop (8 * 2) pt)), word_le (take 8 (drop (8 * 3) pt))) of
            (A, B, C, D) \<Rightarrow>
              Some (bytes_le 8 A @ bytes_le 8 B @ bytes_le 8 C @ bytes_le 8 D,
                    S\<lparr>reads := reads S @ map int [0..<2 * nat r + 4]\<rparr>))"
proof -
  obtain p0 where p0: "load_WORD h pt 0 = Some p0"
    "bswap_if_be h p0 = word_le (take 8 (drop (8 * 0) pt))"
    using load_WORD_norm [of 0 pt h] assms(4) by auto
  obtain p1 where p1: "load_WORD h pt 1 = Some p1"
    "bswap_if_be h p1 = word_le (take 8 (drop (8 * 1) pt))"
    using load_WORD_norm [of 1 pt h] assms(4) by auto
  obtain p2 where p2: "load_WORD h pt 2 = Some p2"
    "bswap_if_be h p2 = word_le (take 8 (drop (8 * 2) pt))"
    using load_WORD_norm [of 2 pt h] assms(4) by auto
  obtain p3 where p3: "load_WORD h pt 3 = Some p3"
    "bswap_if_be h p3 = word_le (take 8 (drop (8 * 3) pt))"
    using load_WORD_norm [of 3 pt h] assms(4) by auto
  obtain A B C D where s: "spec_rc6_encrypt (cells S) (nat r)
      (word_le (take 8 (drop (8 * 0) pt)), word_le (take 8 (drop (8 * 1) pt)),
       word_le (take 8 (drop (8 * 2) pt)), word_le (take 8 (drop (8 * 3) pt))) = (A, B, C, D)"
    by (cases "spec_rc6_encrypt (cells S) (nat r)
      (word_le (take 8 (drop (8 * 0) pt)), word_le (take 8 (drop (8 * 1) pt)),
       word_le (take 8 (drop (8 * 2) pt)), word_le (take 8 (drop (8 * 3) pt)))")
  have e: "rc6_encrypt h S w r (p0, p1, p2, p3) =
        Some ((bswap_if_be h A, bswap_if_be h B, bswap_if_be h C, bswap_if_be h D),
              S\<lparr>reads := reads S @ map int [0..<2 * nat r + 4]\<rparr>)"
    unfolding rc6_encrypt_eq [OF assms(1-3)] norm4_def prod.case p0(2) p1(2) p2(2) p3(2) s ..
  show ?thesis
    unfolding rc6_encrypt_bytes_def p0(1) p1(1) p2(1) p3(1) s e Option.bind_lunit prod.case
      object_rep_bswap_if_be ..
qed

section \<open>The bytes of the key words\<close>

lemma spec_key_word_byte:
  assumes "k < 8"
  shows "ucast (drop_bit (8 * k) (spec_key_word b key j)) = spec_key_byte b key (8 * j + k)"
proof -
  define bs where "bs = map (\<lambda>k. spec_key_byte b key (8 * j + k)) [0..<8]"
  have len: "length bs = 8" by (simp add: bs_def)
  have "ucast (drop_bit (8 * k) (word_le bs :: WORD)) = bytes_le 8 (word_le bs :: WORD) ! k"
    using assms by (simp add: bytes_le_nth)
  also have "\<dots> = bs ! k"
    by (simp only: bytes_le_word_le [OF len])
  also have "\<dots> = spec_key_byte b key (8 * j + k)"
    using assms by (simp add: bs_def del: upt_Suc)
  finally show ?thesis
    unfolding spec_key_word_word_le bs_def .
qed

lemma spec_key_word_empty: "spec_key_word 0 key j = 0"
  by (simp add: spec_key_word_def spec_key_byte_def)

lemma setup_copy_key_nothing: "setup_copy_key h 0 0 key L = Some L"
  by (subst setup_copy_key.simps) simp

lemma setup_key_empty: "setup_key h junk 0 key = setup_key h junk 0 key'"
  unfolding setup_key_def Let_def setup_copy_key_nothing ..

lemma setup_c_empty_key:
  "setup_c h junk S Sw w r 0 key = setup_c h junk S Sw w r 0 key'"
  unfolding setup_c_def setup_key_empty [of h junk key key'] ..

lemma L_words_ceiling: "int (spec_L_words b) = max 1 \<lceil>real b / 8\<rceil>"
proof -
  have "\<lceil>real b / 8\<rceil> = \<lceil>of_int (int b) / (of_int 8 :: real)\<rceil>" by simp
  also have "\<dots> = - (- int b div 8)" by (rule ceiling_divide_eq_div)
  also have "\<dots> = int ((b + 7) div 8)" by (simp add: zdiv_int)
  finally show ?thesis by (simp add: spec_L_words_def)
qed

section \<open>RC5 and RC6 encryption follow the specified rounds\<close>

text \<open>
  Claim C6. For a round count \<open>r \<ge> 0\<close> that is a multiple of 4 and a table of
  \<open>2r+2\<close> words, \<open>rc5_encrypt\<close> returns the block the specification describes:
  the normalised plaintext words are whitened with \<open>S[0]\<close> and \<open>S[1]\<close>, then
  \<open>r\<close> rounds \<open>A = rotateLeft(A XOR B, B mod W) + S[2*round+2]\<close>,
  \<open>B = rotateLeft(B XOR A, A mod W) + S[2*round+3]\<close> run for
  \<open>round = 0, ..., r-1\<close>, and the two registers are stored normalised. The table
  is read at the indices \<open>0, 1, ..., 2r+1\<close> in this order, each once. With a table
  of two words and \<open>r = 0\<close> the result is \<open>(p0 + S[0], p1 + S[1])\<close>.
\<close>

theorem rc5_encrypt_follows_spec:
  assumes "0 \<le> r" and "r mod 4 = 0"
    and "int (length (cells rkey)) = 2 * r + 2"
    and "length (cells rkey0) = 2"
  shows "rc5_encrypt h rkey w r p =
           Some (norm2 h (spec_rc5_encrypt (cells rkey) (nat r) (norm2 h p)),
                 rkey\<lparr>reads := reads rkey @ map int [0..<2 * nat r + 2]\<rparr>)
       \<and> rc5_encrypt h rkey0 w 0 (p0, p1) =
           Some ((bswap_if_be h (bswap_if_be h p0 + cells rkey0 ! 0),
                  bswap_if_be h (bswap_if_be h p1 + cells rkey0 ! 1)),
                 rkey0\<lparr>reads := reads rkey0 @ [0, 1]\<rparr>)
       \<and> rc5_encrypt LittleEndian rkey0 w 0 (p0, p1) =
           Some ((p0 + cells rkey0 ! 0, p1 + cells rkey0 ! 1),
                 rkey0\<lparr>reads := reads rkey0 @ [0, 1]\<rparr>)"
proof -
  have zero: "rc5_encrypt h' rkey0 w 0 (p0, p1) =
           Some ((bswap_if_be h' (bswap_if_be h' p0 + cells rkey0 ! 0),
                  bswap_if_be h' (bswap_if_be h' p1 + cells rkey0 ! 1)),
                 rkey0\<lparr>reads := reads rkey0 @ [0, 1]\<rparr>)" for h'
  proof -
    have spec0: "spec_rc5_encrypt S 0 (a, b) = (a + S ! 0, b + S ! 1)"
      for S a b by (simp add: spec_rc5_encrypt_def)
    show ?thesis
      using assms(4) rc5_encrypt_eq [of 0 rkey0 h' w "(p0, p1)"]
      unfolding norm2_def prod.case nat_0 spec0 by (simp add: upt_conv_Cons)
  qed
  have "rc5_encrypt h rkey w r p =
           Some (norm2 h (spec_rc5_encrypt (cells rkey) (nat r) (norm2 h p)),
                 rkey\<lparr>reads := reads rkey @ map int [0..<2 * nat r + 2]\<rparr>)"
    using assms(1-3) by (intro rc5_encrypt_eq) simp_all
  moreover note zero [of h]
  moreover have "rc5_encrypt LittleEndian rkey0 w 0 (p0, p1) =
           Some ((p0 + cells rkey0 ! 0, p1 + cells rkey0 ! 1),
                 rkey0\<lparr>reads := reads rkey0 @ [0, 1]\<rparr>)"
    using zero [of LittleEndian] by simp
  ultimately show ?thesis by (intro conjI)
qed

theorem rc5_encrypt_follows_spec_witness:
  "(0::int) \<le> 4 \<and> (4::int) mod 4 = 0
   \<and> int (length (cells \<lparr>cells = replicate 10 7, reads = [], writes = []\<rparr>)) = 2 * 4 + 2
   \<and> length (cells \<lparr>cells = [5, 6], reads = [], writes = []\<rparr>) = 2
   \<and> rc5_encrypt BigEndian \<lparr>cells = replicate 10 7, reads = [], writes = []\<rparr> 64 4 (1, 2) =
       Some (norm2 BigEndian (spec_rc5_encrypt (replicate 10 7) 4 (norm2 BigEndian (1, 2))),
             \<lparr>cells = replicate 10 7, reads = map int [0..<10], writes = []\<rparr>)
   \<and> rc5_encrypt LittleEndian \<lparr>cells = [5, 6], reads = [], writes = []\<rparr> 64 0 (1, 2) =
       Some ((6, 8), \<lparr>cells = [5, 6], reads = [0, 1], writes = []\<rparr>)"
  using rc5_encrypt_follows_spec [of 4 "\<lparr>cells = replicate 10 7, reads = [], writes = []\<rparr>"
      "\<lparr>cells = [5, 6], reads = [], writes = []\<rparr>" BigEndian 64 "(1, 2)" 1 2]
  by simp

text \<open>
  The restriction of C6 to round counts that are multiples of 4 cannot be dropped. The
  loops \<open>for (i=0; i<r/4; i++) for (j=0; j<4; j++)\<close> run \<open>4 * (r / 4)\<close> rounds:
  with \<open>r = 2\<close> and a table of \<open>2r+2 = 6\<close> zero words no round is executed and the
  plaintext \<open>(1, 0)\<close> is returned as \<open>(1, 0)\<close>, whereas two rounds give
  \<open>(12, 57344)\<close>.
\<close>

theorem rc5_encrypt_two_rounds_counterexample:
  "int (length (cells \<lparr>cells = [0, 0, 0, 0, 0, 0], reads = [], writes = []\<rparr>)) = 2 * 2 + 2
   \<and> map_option fst
         (rc5_encrypt LittleEndian \<lparr>cells = [0, 0, 0, 0, 0, 0], reads = [], writes = []\<rparr> 64 2 (1, 0)) =
       Some (1, 0)
   \<and> norm2 LittleEndian
         (spec_rc5_encrypt [0, 0, 0, 0, 0, 0] 2 (norm2 LittleEndian (1, 0))) = (12, 57344)
   \<and> map_option fst
         (rc5_encrypt LittleEndian \<lparr>cells = [0, 0, 0, 0, 0, 0], reads = [], writes = []\<rparr> 64 2 (1, 0)) \<noteq>
       Some (norm2 LittleEndian
         (spec_rc5_encrypt [0, 0, 0, 0, 0, 0] 2 (norm2 LittleEndian (1, 0))))"
proof -
  have code: "rc5_encrypt LittleEndian \<lparr>cells = [0, 0, 0, 0, 0, 0], reads = [], writes = []\<rparr> 64 2 (1, 0) =
      Some ((1, 0), \<lparr>cells = [0, 0, 0, 0, 0, 0], reads = [0, 1], writes = []\<rparr>)"
    by (simp add: rc5_encrypt.simps rd_def signed_divide_int_def)
  have spec: "spec_rc5_encrypt [0, 0, 0, 0, 0, 0] 2 (1, 0) = (12, 57344)"
    by (simp add: spec_rc5_encrypt_def spec_rc5_round_def W_def rotateLeft_shifts upt_conv_Cons)
  show ?thesis
    by (simp add: code spec norm2_def)
qed

text \<open>
  Claim C7. For a round count \<open>r \<ge> 0\<close> that is a multiple of 4 and a table of
  \<open>2r+4\<close> words, \<open>rc6_encrypt\<close> returns the block the specification describes:
  \<open>B = p1 + S[0]\<close>, \<open>D = p3 + S[1]\<close>, \<open>A = p0\<close>, \<open>C = p2\<close> on the normalised
  plaintext; \<open>r\<close> rounds with \<open>t = f(B)\<close>, \<open>u = f(D)\<close>,
  \<open>A = rotateLeft(A XOR t, u mod W) + S[2*round+2]\<close>,
  \<open>C = rotateLeft(C XOR u, t mod W) + S[2*round+3]\<close> and the register rotation
  \<open>(A,B,C,D) \<rightarrow> (B,C,D,A)\<close>; then \<open>A + S[2r+2]\<close>, \<open>C + S[2r+3]\<close>; the four
  registers are stored normalised. The table is read at \<open>0, 1, ..., 2r+3\<close> in order.
\<close>

theorem rc6_encrypt_follows_spec:
  assumes "0 \<le> r" and "r mod 4 = 0"
    and "int (length (cells rkey)) = 2 * r + 4"
  shows "rc6_encrypt h rkey w r p =
           Some (norm4 h (spec_rc6_encrypt (cells rkey) (nat r) (norm4 h p)),
                 rkey\<lparr>reads := reads rkey @ map int [0..<2 * nat r + 4]\<rparr>)"
  using assms by (intro rc6_encrypt_eq) simp_all

theorem rc6_encrypt_follows_spec_witness:
  "(0::int) \<le> 4 \<and> (4::int) mod 4 = 0
   \<and> int (length (cells \<lparr>cells = replicate 12 7, reads = [], writes = []\<rparr>)) = 2 * 4 + 4
   \<and> rc6_encrypt BigEndian \<lparr>cells = replicate 12 7, reads = [], writes = []\<rparr> 64 4 (1, 2, 3, 4) =
       Some (norm4 BigEndian
               (spec_rc6_encrypt (replicate 12 7) 4 (norm4 BigEndian (1, 2, 3, 4))),
             \<lparr>cells = replicate 12 7, reads = map int [0..<12], writes = []\<rparr>)"
  using rc6_encrypt_follows_spec [of 4 "\<lparr>cells = replicate 12 7, reads = [], writes = []\<rparr>"
      BigEndian 64 "(1, 2, 3, 4)"]
  by simp

text \<open>
  The restriction of C7 to round counts that are multiples of 4 cannot be dropped either:
  with \<open>r = 2\<close> and a table of \<open>2r+4 = 8\<close> zero words \<open>rc6_encrypt\<close> executes no
  round, reads the closing subkeys at the indices 2 and 3 instead of \<open>2r+2\<close> and
  \<open>2r+3\<close>, and returns the plaintext \<open>(0, 1, 0, 0)\<close> as \<open>(0, 1, 0, 0)\<close>, whereas
  two rounds give \<open>(0, 4730880, 192, 1)\<close>.
\<close>

theorem rc6_encrypt_two_rounds_counterexample:
  "int (length (cells \<lparr>cells = [0, 0, 0, 0, 0, 0, 0, 0], reads = [], writes = []\<rparr>)) = 2 * 2 + 4
   \<and> map_option fst
         (rc6_encrypt LittleEndian \<lparr>cells = [0, 0, 0, 0, 0, 0, 0, 0], reads = [], writes = []\<rparr>
            64 2 (0, 1, 0, 0)) =
       Some (0, 1, 0, 0)
   \<and> norm4 LittleEndian
         (spec_rc6_encrypt [0, 0, 0, 0, 0, 0, 0, 0] 2 (norm4 LittleEndian (0, 1, 0, 0))) =
       (0, 4730880, 192, 1)
   \<and> map_option fst
         (rc6_encrypt LittleEndian \<lparr>cells = [0, 0, 0, 0, 0, 0, 0, 0], reads = [], writes = []\<rparr>
            64 2 (0, 1, 0, 0)) \<noteq>
       Some (norm4 LittleEndian
         (spec_rc6_encrypt [0, 0, 0, 0, 0, 0, 0, 0] 2 (norm4 LittleEndian (0, 1, 0, 0))))"
proof -
  have code: "rc6_encrypt LittleEndian \<lparr>cells = [0, 0, 0, 0, 0, 0, 0, 0], reads = [], writes = []\<rparr>
      64 2 (0, 1, 0, 0) =
      Some ((0, 1, 0, 0), \<lparr>cells = [0, 0, 0, 0, 0, 0, 0, 0], reads = [0, 1, 2, 3], writes = []\<rparr>)"
    by (simp add: rc6_encrypt.simps rd_def signed_divide_int_def)
  have f: "spec_f 0 = 0" "spec_f 1 = 192" "spec_f 192 = 4730880"
    by (simp_all add: spec_f_def log2_W rotateLeft_shifts)
  have "spec_rc6_round [0, 0, 0, 0, 0, 0, 0, 0] 0 (0, 1, 0, 0) = (1, 0, 0, 192)"
    unfolding spec_rc6_round_def Let_def prod.case f W_def by (simp add: rotateLeft_shifts)
  moreover have "spec_rc6_round [0, 0, 0, 0, 0, 0, 0, 0] (Suc 0) (1, 0, 0, 192) =
      (0, 4730880, 192, 1)"
    unfolding spec_rc6_round_def Let_def prod.case f W_def by (simp add: rotateLeft_shifts)
  ultimately have spec:
    "spec_rc6_encrypt [0, 0, 0, 0, 0, 0, 0, 0] 2 (0, 1, 0, 0) = (0, 4730880, 192, 1)"
    by (simp add: spec_rc6_encrypt_def upt_conv_Cons)
  show ?thesis
    by (simp add: code spec norm4_def)
qed

text \<open>
  Claim C8. With \<open>r = 0\<close> and a table of four words, \<open>rc6_encrypt\<close> returns
  \<open>(p0 + S[2], p1 + S[0], p2 + S[3], p3 + S[1])\<close>: positions 1 and 3 receive the two
  initial whitening additions only, positions 0 and 2 the two closing additions only.
  The words are those of the normalised block; on a little-endian host they are the
  words in memory.
\<close>

theorem rc6_encrypt_zero_rounds:
  assumes "length (cells rkey) = 4"
  shows "rc6_encrypt h rkey w 0 (p0, p1, p2, p3) =
           Some ((bswap_if_be h (bswap_if_be h p0 + cells rkey ! 2),
                  bswap_if_be h (bswap_if_be h p1 + cells rkey ! 0),
                  bswap_if_be h (bswap_if_be h p2 + cells rkey ! 3),
                  bswap_if_be h (bswap_if_be h p3 + cells rkey ! 1)),
                 rkey\<lparr>reads := reads rkey @ [0, 1, 2, 3]\<rparr>)
       \<and> rc6_encrypt LittleEndian rkey w 0 (p0, p1, p2, p3) =
           Some ((p0 + cells rkey ! 2, p1 + cells rkey ! 0,
                  p2 + cells rkey ! 3, p3 + cells rkey ! 1),
                 rkey\<lparr>reads := reads rkey @ [0, 1, 2, 3]\<rparr>)"
proof -
  have 4: "[0..<4] = [0, 1, 2, 3]" by (simp add: upt_conv_Cons)
  have zero: "rc6_encrypt h' rkey w 0 (p0, p1, p2, p3) =
           Some ((bswap_if_be h' (bswap_if_be h' p0 + cells rkey ! 2),
                  bswap_if_be h' (bswap_if_be h' p1 + cells rkey ! 0),
                  bswap_if_be h' (bswap_if_be h' p2 + cells rkey ! 3),
                  bswap_if_be h' (bswap_if_be h' p3 + cells rkey ! 1)),
                 rkey\<lparr>reads := reads rkey @ [0, 1, 2, 3]\<rparr>)" for h'
  proof -
    have spec0: "spec_rc6_encrypt S 0 (a, b, c, d) = (a + S ! 2, b + S ! 0, c + S ! 3, d + S ! 1)"
      for S a b c d by (simp add: spec_rc6_encrypt_def numeral_2_eq_2)
    show ?thesis
      using assms rc6_encrypt_eq [of 0 rkey h' w "(p0, p1, p2, p3)"]
      unfolding norm4_def prod.case nat_0 spec0 by (simp add: 4)
  qed
  show ?thesis
    using zero [of h] zero [of LittleEndian] by simp
qed

theorem rc6_encrypt_zero_rounds_witness:
  "length (cells \<lparr>cells = [10, 20, 30, 40], reads = [], writes = []\<rparr>) = 4
   \<and> rc6_encrypt LittleEndian \<lparr>cells = [10, 20, 30, 40], reads = [], writes = []\<rparr> 64 0
         (1, 2, 3, 4) =
       Some ((31, 12, 43, 24), \<lparr>cells = [10, 20, 30, 40], reads = [0, 1, 2, 3], writes = []\<rparr>)"
  using rc6_encrypt_zero_rounds [of "\<lparr>cells = [10, 20, 30, 40], reads = [], writes = []\<rparr>"
      LittleEndian 64 1 2 3 4]
  by simp

section \<open>Decryption inverts encryption\<close>

text \<open>
  Claim C1. For valid parameters (\<open>w = 64\<close>, \<open>r\<close> in \<open>[0,255]\<close> with \<open>r mod 4 = 0\<close>,
  \<open>b\<close> in \<open>[0,255]\<close>), a key of at least \<open>b\<close> bytes and a table of the documented size,
  the setup succeeds with result 0 and, with the table it leaves, decrypting the
  encryption of any block gives the block back: for RC5 on two words with a table of
  \<open>2r+2\<close> words and for RC6 on four words with a table of \<open>2r+4\<close> words. No step
  touches memory outside the table.
\<close>

theorem decrypt_encrypt_roundtrip:
  assumes "w = 64" and "0 \<le> r" and "r \<le> 255" and "r mod 4 = 0"
    and "0 \<le> b" and "b \<le> 255" and "nat b \<le> length key"
    and "int (length (cells rkey5)) = 2 * r + 2"
    and "int (length (cells rkey6)) = 2 * r + 4"
  shows "(rc5_setup h junk rkey5 w r b key \<bind> (\<lambda>(rc, S).
            rc5_encrypt h S w r p \<bind> (\<lambda>(c, S).
              rc5_decrypt h S w r c \<bind> (\<lambda>(p', S). Some (rc, p'))))) = Some (0, p)
       \<and> (rc6_setup h junk rkey6 w r b key \<bind> (\<lambda>(rc, S).
            rc6_encrypt h S w r q \<bind> (\<lambda>(c, S).
              rc6_decrypt h S w r c \<bind> (\<lambda>(q', S). Some (rc, q'))))) = Some (0, q)"
proof -
  have valid: "w = 64" "0 \<le> b" "b \<le> 255" "0 \<le> r" "r \<le> 255" "r mod 4 = 0"
    using assms by simp_all
  have rc5: "(rc5_setup h junk rkey5 w r b key \<bind> (\<lambda>(rc, S).
            rc5_encrypt h S w r p \<bind> (\<lambda>(c, S).
              rc5_decrypt h S w r c \<bind> (\<lambda>(p', S). Some (rc, p'))))) = Some (0, p)"
  proof -
    define S1 where "S1 = rkey5\<lparr>cells := spec_key_schedule (nat (2 * r + 2)) (spec_key_words (nat b) key),
           reads := reads rkey5 @ map int [0..<nat (2 * r + 2) - 1] @
             map (\<lambda>t. int (t mod nat (2 * r + 2)))
               [0..<3 * max (spec_L_words (nat b)) (nat (2 * r + 2))],
           writes := writes rkey5 @ map int [0..<nat (2 * r + 2)] @
             map (\<lambda>t. int (t mod nat (2 * r + 2)))
               [0..<3 * max (spec_L_words (nat b)) (nat (2 * r + 2))]\<rparr>"
    define c where "c = norm2 h (spec_rc5_encrypt (cells S1) (nat r) (norm2 h p))"
    define S2 where "S2 = S1\<lparr>reads := reads S1 @ map int [0..<2 * nat r + 2]\<rparr>"
    define S3 where "S3 = S2\<lparr>reads := reads S2 @ rev (map int [0..<2 * nat r + 2])\<rparr>"
    have len: "2 * r + 2 \<le> int (length (cells S1))" "2 * r + 2 \<le> int (length (cells S2))"
      using assms(2) by (simp_all add: S1_def S2_def)
    have s: "rc5_setup h junk rkey5 w r b key = Some (0, S1)"
      unfolding rc5_setup_def S1_def
      by (rule setup_c_ok [OF valid]) (use assms in simp_all)
    have e: "rc5_encrypt h S1 w r p = Some (c, S2)"
      unfolding c_def S2_def by (rule rc5_encrypt_eq [OF assms(2,4) len(1)])
    have "rc5_decrypt h S2 w r c =
          Some (norm2 h (rc5_decrypt_value (cells S2) (nat r) (norm2 h c)), S3)"
      unfolding S3_def by (rule rc5_decrypt_eq [OF assms(2,4) len(2)])
    moreover have "cells S2 = cells S1" by (simp add: S2_def)
    ultimately have d: "rc5_decrypt h S2 w r c = Some (p, S3)"
      by (simp add: c_def)
    show ?thesis
      unfolding s e d Option.bind_lunit prod.case ..
  qed
  have rc6: "(rc6_setup h junk rkey6 w r b key \<bind> (\<lambda>(rc, S).
            rc6_encrypt h S w r q \<bind> (\<lambda>(c, S).
              rc6_decrypt h S w r c \<bind> (\<lambda>(q', S). Some (rc, q'))))) = Some (0, q)"
  proof -
    define S1 where "S1 = rkey6\<lparr>cells := spec_key_schedule (nat (2 * r + 4)) (spec_key_words (nat b) key),
           reads := reads rkey6 @ map int [0..<nat (2 * r + 4) - 1] @
             map (\<lambda>t. int (t mod nat (2 * r + 4)))
               [0..<3 * max (spec_L_words (nat b)) (nat (2 * r + 4))],
           writes := writes rkey6 @ map int [0..<nat (2 * r + 4)] @
             map (\<lambda>t. int (t mod nat (2 * r + 4)))
               [0..<3 * max (spec_L_words (nat b)) (nat (2 * r + 4))]\<rparr>"
    define c where "c = norm4 h (spec_rc6_encrypt (cells S1) (nat r) (norm4 h q))"
    define S2 where "S2 = S1\<lparr>reads := reads S1 @ map int [0..<2 * nat r + 4]\<rparr>"
    define S3 where "S3 = S2\<lparr>reads := reads S2 @ rev (map int [0..<2 * nat r + 4])\<rparr>"
    have len: "2 * r + 4 \<le> int (length (cells S1))" "2 * r + 4 \<le> int (length (cells S2))"
      using assms(2) by (simp_all add: S1_def S2_def)
    have s: "rc6_setup h junk rkey6 w r b key = Some (0, S1)"
      unfolding rc6_setup_def S1_def
      by (rule setup_c_ok [OF valid]) (use assms in simp_all)
    have e: "rc6_encrypt h S1 w r q = Some (c, S2)"
      unfolding c_def S2_def by (rule rc6_encrypt_eq [OF assms(2,4) len(1)])
    have "rc6_decrypt h S2 w r c =
          Some (norm4 h (rc6_decrypt_value (cells S2) (nat r) (norm4 h c)), S3)"
      unfolding S3_def by (rule rc6_decrypt_eq [OF assms(2,4) len(2)])
    moreover have "cells S2 = cells S1" by (simp add: S2_def)
    ultimately have d: "rc6_decrypt h S2 w r c = Some (q, S3)"
      by (simp add: c_def)
    show ?thesis
      unfolding s e d Option.bind_lunit prod.case ..
  qed
  show ?thesis using rc5 rc6 by (rule conjI)
qed

theorem decrypt_encrypt_roundtrip_witness:
  "(64::int) = 64 \<and> (0::int) \<le> 4 \<and> (4::int) \<le> 255 \<and> (4::int) mod 4 = 0
   \<and> (0::int) \<le> 3 \<and> (3::int) \<le> 255 \<and> nat 3 \<le> length [1, 2, 3 :: byte]
   \<and> int (length (cells \<lparr>cells = replicate 10 0, reads = [], writes = []\<rparr>)) = 2 * 4 + 2
   \<and> int (length (cells \<lparr>cells = replicate 12 0, reads = [], writes = []\<rparr>)) = 2 * 4 + 4
   \<and> (rc5_setup BigEndian (\<lambda>_. 9) \<lparr>cells = replicate 10 0, reads = [], writes = []\<rparr>
         64 4 3 [1, 2, 3] \<bind> (\<lambda>(rc, S).
            rc5_encrypt BigEndian S 64 4 (5, 6) \<bind> (\<lambda>(c, S).
              rc5_decrypt BigEndian S 64 4 c \<bind> (\<lambda>(p', S). Some (rc, p'))))) = Some (0, (5, 6))
   \<and> (rc6_setup BigEndian (\<lambda>_. 9) \<lparr>cells = replicate 12 0, reads = [], writes = []\<rparr>
         64 4 3 [1, 2, 3] \<bind> (\<lambda>(rc, S).
            rc6_encrypt BigEndian S 64 4 (5, 6, 7, 8) \<bind> (\<lambda>(c, S).
              rc6_decrypt BigEndian S 64 4 c \<bind> (\<lambda>(q', S). Some (rc, q'))))) =
       Some (0, (5, 6, 7, 8))"
  using decrypt_encrypt_roundtrip [of 64 4 3 "[1, 2, 3]"
      "\<lparr>cells = replicate 10 0, reads = [], writes = []\<rparr>"
      "\<lparr>cells = replicate 12 0, reads = [], writes = []\<rparr>"
      BigEndian "\<lambda>_. 9" "(5, 6)" "(5, 6, 7, 8)"]
  by simp

section \<open>Parameter validation\<close>

text \<open>
  Claim C2. \<open>rc5_setup\<close> and \<open>rc6_setup\<close> return the failure result \<open>-1\<close> exactly when
  the parameters are unsupported: \<open>w\<close> is not the compiled word width 64, or \<open>b < 0\<close>,
  or \<open>b > 255\<close>, or \<open>r < 0\<close>, or \<open>r > 255\<close>, or \<open>r mod 4 \<noteq> 0\<close>. For all other
  parameters they return 0, given a table of the documented size and \<open>b\<close> readable
  key bytes.
\<close>

theorem setup_fails_iff_unsupported:
  "((\<exists>S'. rc5_setup h junk rkey5 w r b key = Some (- 1, S')) \<longleftrightarrow> unsupported w r b)
   \<and> ((\<exists>S'. rc6_setup h junk rkey6 w r b key = Some (- 1, S')) \<longleftrightarrow> unsupported w r b)
   \<and> (\<not> unsupported w r b \<and> int (length (cells rkey5)) = 2 * r + 2 \<and> nat b \<le> length key
        \<longrightarrow> (\<exists>S'. rc5_setup h junk rkey5 w r b key = Some (0, S')))
   \<and> (\<not> unsupported w r b \<and> int (length (cells rkey6)) = 2 * r + 4 \<and> nat b \<le> length key
        \<longrightarrow> (\<exists>S'. rc6_setup h junk rkey6 w r b key = Some (0, S')))"
proof -
  have fails: "(\<exists>S'. setup_c h junk S Sw w r b key = Some (- 1, S')) \<longleftrightarrow> unsupported w r b"
    for S Sw
  proof
    assume "\<exists>S'. setup_c h junk S Sw w r b key = Some (- 1, S')"
    then obtain S' where "setup_c h junk S Sw w r b key = Some (- 1, S')" ..
    then show "unsupported w r b"
      using setup_c_supported [of w r b h junk S Sw key "- 1" S'] by auto
  next
    assume "unsupported w r b"
    then show "\<exists>S'. setup_c h junk S Sw w r b key = Some (- 1, S')"
      by (simp add: setup_c_unsupported)
  qed
  have ok: "\<exists>S'. setup_c h junk S Sw w r b key = Some (0, S')"
    if "\<not> unsupported w r b" "int (length (cells S)) = Sw" "1 \<le> Sw" "nat b \<le> length key"
    for S Sw
  proof -
    have valid: "w = 64" "0 \<le> b" "b \<le> 255" "0 \<le> r" "r \<le> 255" "r mod 4 = 0"
      using that(1) unfolding supported_valid by simp_all
    have "length (cells S) = nat Sw" using that(2) by simp
    from setup_c_ok [OF valid that(3) this that(4)] show ?thesis by blast
  qed
  have pos: "1 \<le> 2 * r + 2" "1 \<le> 2 * r + 4" if "\<not> unsupported w r b"
    using that unfolding supported_valid by simp_all
  show ?thesis
    unfolding rc5_setup_def rc6_setup_def
    using fails ok pos by blast
qed

theorem setup_fails_iff_unsupported_witness:
  "unsupported 64 3 16
   \<and> (\<exists>S'. rc5_setup LittleEndian (\<lambda>_. 0) \<lparr>cells = [], reads = [], writes = []\<rparr> 64 3 16 [] =
         Some (- 1, S'))
   \<and> (\<exists>S'. rc6_setup LittleEndian (\<lambda>_. 0) \<lparr>cells = [], reads = [], writes = []\<rparr> 64 3 16 [] =
         Some (- 1, S'))
   \<and> \<not> unsupported 64 0 1
   \<and> int (length (cells \<lparr>cells = [0, 0], reads = [], writes = []\<rparr>)) = 2 * 0 + 2
   \<and> int (length (cells \<lparr>cells = [0, 0, 0, 0], reads = [], writes = []\<rparr>)) = 2 * 0 + 4
   \<and> nat 1 \<le> length [7 :: byte]
   \<and> (\<exists>S'. rc5_setup LittleEndian (\<lambda>_. 0) \<lparr>cells = [0, 0], reads = [], writes = []\<rparr> 64 0 1 [7] =
         Some (0, S'))
   \<and> (\<exists>S'. rc6_setup LittleEndian (\<lambda>_. 0) \<lparr>cells = [0, 0, 0, 0], reads = [], writes = []\<rparr>
         64 0 1 [7] = Some (0, S'))"
  using setup_fails_iff_unsupported [of LittleEndian "\<lambda>_. 0"
      "\<lparr>cells = [], reads = [], writes = []\<rparr>" 64 3 16 "[]"
      "\<lparr>cells = [], reads = [], writes = []\<rparr>"]
    setup_fails_iff_unsupported [of LittleEndian "\<lambda>_. 0"
      "\<lparr>cells = [0, 0], reads = [], writes = []\<rparr>" 64 0 1 "[7]"
      "\<lparr>cells = [0, 0, 0, 0], reads = [], writes = []\<rparr>"]
  by (simp add: unsupported_def W_def)

text \<open>
  Claim C3. When \<open>rc5_setup\<close> or \<open>rc6_setup\<close> fails, the table is as it was: no word
  of it is changed, and it is neither read nor written.
\<close>

theorem setup_failure_leaves_table:
  "(unsupported w r b \<longrightarrow>
      rc5_setup h junk rkey w r b key = Some (- 1, rkey) \<and>
      rc6_setup h junk rkey w r b key = Some (- 1, rkey))
   \<and> (rc5_setup h junk rkey w r b key = Some (- 1, S') \<longrightarrow> S' = rkey)
   \<and> (rc6_setup h junk rkey w r b key = Some (- 1, S') \<longrightarrow> S' = rkey)"
proof -
  have "S' = S" if "setup_c h junk S Sw w r b key = Some (- 1, S')" for S Sw
  proof (cases "unsupported w r b")
    case True
    then show ?thesis using that by (simp add: setup_c_unsupported)
  next
    case False
    then show ?thesis using setup_c_supported [OF False that] by simp
  qed
  then show ?thesis
    unfolding rc5_setup_def rc6_setup_def by (auto simp: setup_c_unsupported)
qed

theorem setup_failure_leaves_table_witness:
  "unsupported 64 5 300
   \<and> rc5_setup BigEndian (\<lambda>_. 0) \<lparr>cells = [1, 2, 3], reads = [], writes = []\<rparr> 64 5 300 [] =
       Some (- 1, \<lparr>cells = [1, 2, 3], reads = [], writes = []\<rparr>)
   \<and> rc6_setup BigEndian (\<lambda>_. 0) \<lparr>cells = [1, 2, 3], reads = [], writes = []\<rparr> 64 5 300 [] =
       Some (- 1, \<lparr>cells = [1, 2, 3], reads = [], writes = []\<rparr>)"
  using setup_failure_leaves_table [of 64 5 300 BigEndian "\<lambda>_. 0"
      "\<lparr>cells = [1, 2, 3], reads = [], writes = []\<rparr>" "[]"]
  by (simp add: unsupported_def W_def)

section \<open>The key schedule\<close>

text \<open>
  Claim C4. For valid parameters, a key of at least \<open>b\<close> bytes and a table of the
  documented size, \<open>rc5_setup\<close> (table of \<open>2r+2\<close> words) and \<open>rc6_setup\<close> (table of
  \<open>2r+4\<close> words) return 0 and leave in the table what the specification's routine
  computes from the packed key: \<open>S[0] = P\<close>, \<open>S[i] = S[i-1] + Q\<close>, then
  \<open>3 * max(L_words, S_words)\<close> mixing iterations from \<open>A = B = 0\<close>, \<open>i = j = 0\<close> with
  wrapping cursors. The code writes the table at \<open>0, ..., S_words-1\<close> and then once
  per mixing iteration at the wrapping cursor; both variants run the same routine
  and differ in the table size only.
\<close>

theorem setup_follows_spec:
  assumes "w = 64" and "0 \<le> r" and "r \<le> 255" and "r mod 4 = 0"
    and "0 \<le> b" and "b \<le> 255" and "nat b \<le> length key"
    and "int (length (cells rkey5)) = 2 * r + 2"
    and "int (length (cells rkey6)) = 2 * r + 4"
  shows "rc5_setup h junk rkey5 w r b key =
           Some (0, rkey5\<lparr>cells := spec_key_schedule (nat (2 * r + 2)) (spec_key_words (nat b) key),
             reads := reads rkey5 @ map int [0..<nat (2 * r + 2) - 1] @
               map (\<lambda>t. int (t mod nat (2 * r + 2)))
                 [0..<3 * max (spec_L_words (nat b)) (nat (2 * r + 2))],
             writes := writes rkey5 @ map int [0..<nat (2 * r + 2)] @
               map (\<lambda>t. int (t mod nat (2 * r + 2)))
                 [0..<3 * max (spec_L_words (nat b)) (nat (2 * r + 2))]\<rparr>)
       \<and> rc6_setup h junk rkey6 w r b key =
           Some (0, rkey6\<lparr>cells := spec_key_schedule (nat (2 * r + 4)) (spec_key_words (nat b) key),
             reads := reads rkey6 @ map int [0..<nat (2 * r + 4) - 1] @
               map (\<lambda>t. int (t mod nat (2 * r + 4)))
                 [0..<3 * max (spec_L_words (nat b)) (nat (2 * r + 4))],
             writes := writes rkey6 @ map int [0..<nat (2 * r + 4)] @
               map (\<lambda>t. int (t mod nat (2 * r + 4)))
                 [0..<3 * max (spec_L_words (nat b)) (nat (2 * r + 4))]\<rparr>)
       \<and> rc5_setup h junk rkey5 w r b key = setup_c h junk rkey5 (2 * r + 2) w r b key
       \<and> rc6_setup h junk rkey6 w r b key = setup_c h junk rkey6 (2 * r + 4) w r b key"
proof -
  have valid: "w = 64" "0 \<le> b" "b \<le> 255" "0 \<le> r" "r \<le> 255" "r mod 4 = 0"
    using assms by simp_all
  show ?thesis
    unfolding rc5_setup_def rc6_setup_def
    by (intro conjI setup_c_ok [OF valid] refl) (use assms in simp_all)
qed

theorem setup_follows_spec_witness:
  "(64::int) = 64 \<and> (0::int) \<le> 4 \<and> (4::int) \<le> 255 \<and> (4::int) mod 4 = 0
   \<and> (0::int) \<le> 3 \<and> (3::int) \<le> 255 \<and> nat 3 \<le> length [1, 2, 3 :: byte]
   \<and> int (length (cells \<lparr>cells = replicate 10 0, reads = [], writes = []\<rparr>)) = 2 * 4 + 2
   \<and> int (length (cells \<lparr>cells = replicate 12 0, reads = [], writes = []\<rparr>)) = 2 * 4 + 4
   \<and> (\<exists>S'. rc5_setup LittleEndian (\<lambda>_. 9) \<lparr>cells = replicate 10 0, reads = [], writes = []\<rparr>
              64 4 3 [1, 2, 3] = Some (0, S')
          \<and> cells S' = spec_key_schedule 10 (spec_key_words 3 [1, 2, 3]))
   \<and> (\<exists>S'. rc6_setup LittleEndian (\<lambda>_. 9) \<lparr>cells = replicate 12 0, reads = [], writes = []\<rparr>
              64 4 3 [1, 2, 3] = Some (0, S')
          \<and> cells S' = spec_key_schedule 12 (spec_key_words 3 [1, 2, 3]))"
  using setup_follows_spec [of 64 4 3 "[1, 2, 3]"
      "\<lparr>cells = replicate 10 0, reads = [], writes = []\<rparr>"
      "\<lparr>cells = replicate 12 0, reads = [], writes = []\<rparr>"
      LittleEndian "\<lambda>_. 9"]
  by simp

text \<open>
  Claim C5. For \<open>b\<close> in \<open>[0,255]\<close> and a key of at least \<open>b\<close> bytes, the key conversion
  of the setup succeeds with \<open>L_words = max(1, ceil(b / 8))\<close>, and the first
  \<open>L_words\<close> words of \<open>L\<close> are the key packed least-significant-byte-first: byte \<open>k\<close>
  of word \<open>j\<close> is key byte \<open>8j+k\<close> when \<open>8j+k < b\<close> and zero otherwise, on either
  host and whatever \<open>L\<close> held before. With \<open>b = 0\<close> there is one key word, it is zero,
  and the setup functions do not depend on the key buffer.
\<close>

theorem key_material_packing:
  assumes "0 \<le> b" and "b \<le> 255" and "nat b \<le> length key"
  shows "(\<exists>L. setup_key h junk b key = Some (int (spec_L_words (nat b)), L)
           \<and> int (spec_L_words (nat b)) = max 1 \<lceil>real_of_int b / 8\<rceil>
           \<and> take (spec_L_words (nat b)) L = spec_key_words (nat b) key
           \<and> (\<forall>j < spec_L_words (nat b). \<forall>k < 8.
                 ucast (drop_bit (8 * k) (L ! j)) =
                   (if 8 * j + k < nat b then key ! (8 * j + k) else (0 :: byte)))
           \<and> (b = 0 \<longrightarrow> spec_L_words (nat b) = 1 \<and> L ! 0 = 0))
       \<and> rc5_setup h junk rkey w r 0 key1 = rc5_setup h junk rkey w r 0 key2
       \<and> rc6_setup h junk rkey w r 0 key1 = rc6_setup h junk rkey w r 0 key2"
proof -
  define bn where "bn = nat b"
  have b: "b = int bn" "bn \<le> 255" "bn \<le> length key" using assms by (simp_all add: bn_def)
  obtain L where L: "setup_key h junk (int bn) key = Some (int (spec_L_words bn), L)"
    "length L = 32" "take (spec_L_words bn) L = spec_key_words bn key"
    using key_words_eq [OF b(2,3), of h junk] by blast
  have lw: "1 \<le> spec_L_words bn" "spec_L_words bn \<le> 32"
    using spec_L_words_bounds [OF b(2)] by simp_all
  have word: "L ! j = spec_key_word bn key j" if "j < spec_L_words bn" for j
  proof -
    have "L ! j = take (spec_L_words bn) L ! j" using that by simp
    also have "\<dots> = spec_key_word bn key j"
      unfolding L(3) using that by (simp add: spec_key_words_def del: upt_Suc)
    finally show ?thesis .
  qed
  have bytes: "\<forall>j < spec_L_words bn. \<forall>k < 8.
                 ucast (drop_bit (8 * k) (L ! j)) =
                   (if 8 * j + k < bn then key ! (8 * j + k) else (0 :: byte))"
    by (simp add: word spec_key_word_byte spec_key_byte_def)
  have ceil: "int (spec_L_words bn) = max 1 \<lceil>real_of_int (int bn) / 8\<rceil>"
    using L_words_ceiling [of bn] by simp
  have zero: "bn = 0 \<longrightarrow> spec_L_words bn = 1 \<and> L ! 0 = 0"
    using word [of 0] by (auto simp: spec_L_words_def spec_key_word_empty)
  have "\<exists>L. setup_key h junk b key = Some (int (spec_L_words (nat b)), L)
           \<and> int (spec_L_words (nat b)) = max 1 \<lceil>real_of_int b / 8\<rceil>
           \<and> take (spec_L_words (nat b)) L = spec_key_words (nat b) key
           \<and> (\<forall>j < spec_L_words (nat b). \<forall>k < 8.
                 ucast (drop_bit (8 * k) (L ! j)) =
                   (if 8 * j + k < nat b then key ! (8 * j + k) else (0 :: byte)))
           \<and> (b = 0 \<longrightarrow> spec_L_words (nat b) = 1 \<and> L ! 0 = 0)"
    unfolding b(1) nat_int using L(1) ceil L(3) bytes zero by (intro exI [of _ L]) simp
  then show ?thesis
    unfolding rc5_setup_def rc6_setup_def
    using setup_c_empty_key [of h junk rkey _ w r key1 key2] by simp
qed

theorem key_material_packing_witness:
  "(0::int) \<le> 3 \<and> (3::int) \<le> 255 \<and> nat 3 \<le> length [17, 34, 51 :: byte]
   \<and> (\<exists>L. setup_key BigEndian (\<lambda>_. 9) 3 [17, 34, 51] = Some (1, L)
          \<and> take 1 L = spec_key_words 3 [17, 34, 51]
          \<and> (ucast (drop_bit (8 * 0) (L ! 0)) :: byte) = 17
          \<and> (ucast (drop_bit (8 * 2) (L ! 0)) :: byte) = 51
          \<and> (ucast (drop_bit (8 * 3) (L ! 0)) :: byte) = 0)
   \<and> rc5_setup BigEndian (\<lambda>_. 9) \<lparr>cells = [0, 0], reads = [], writes = []\<rparr> 64 0 0 [] =
     rc5_setup BigEndian (\<lambda>_. 9) \<lparr>cells = [0, 0], reads = [], writes = []\<rparr> 64 0 0 [1, 2]"
proof -
  have lw: "spec_L_words (nat 3) = 1" by (simp add: spec_L_words_def)
  have hyps: "(0::int) \<le> 3" "(3::int) \<le> 255" "nat 3 \<le> length [17, 34, 51 :: byte]"
    by simp_all
  note inst = key_material_packing [OF hyps, of BigEndian "\<lambda>_. 9"
        "\<lparr>cells = [0, 0], reads = [], writes = []\<rparr>" 64 0 "[]" "[1, 2]"]
  from inst obtain L where
    L: "setup_key BigEndian (\<lambda>_. 9) 3 [17, 34, 51] = Some (int (spec_L_words (nat 3)), L)"
      "take (spec_L_words (nat 3)) L = spec_key_words (nat 3) [17, 34, 51]"
      "\<forall>j < spec_L_words (nat 3). \<forall>k < 8.
         ucast (drop_bit (8 * k) (L ! j)) =
           (if 8 * j + k < nat 3 then [17, 34, 51] ! (8 * j + k) else (0 :: byte))"
    by blast
  have byte: "ucast (drop_bit (8 * k) (L ! 0)) =
           (if 8 * 0 + k < nat 3 then [17, 34, 51] ! (8 * 0 + k) else (0 :: byte))"
    if "k < 8" for k
    using L(3) that unfolding lw by blast
  have "(ucast (drop_bit (8 * 0) (L ! 0)) :: byte) = 17"
    "(ucast (drop_bit (8 * 2) (L ! 0)) :: byte) = 51"
    "(ucast (drop_bit (8 * 3) (L ! 0)) :: byte) = 0"
    using byte [of 0] byte [of 2] byte [of 3] by simp_all
  moreover have "setup_key BigEndian (\<lambda>_. 9) 3 [17, 34, 51] = Some (1, L)"
    "take 1 L = spec_key_words 3 [17, 34, 51]"
    using L(1,2) unfolding lw by simp_all
  ultimately have "\<exists>L. setup_key BigEndian (\<lambda>_. 9) 3 [17, 34, 51] = Some (1, L)
          \<and> take 1 L = spec_key_words 3 [17, 34, 51]
          \<and> (ucast (drop_bit (8 * 0) (L ! 0)) :: byte) = 17
          \<and> (ucast (drop_bit (8 * 2) (L ! 0)) :: byte) = 51
          \<and> (ucast (drop_bit (8 * 3) (L ! 0)) :: byte) = 0"
    by blast
  then show ?thesis
    using inst hyps by blast
qed

section \<open>Host byte order\<close>

text \<open>
  Claim C9. For valid parameters, a key of at least \<open>b\<close> bytes, a table of the
  documented size and a plaintext buffer holding a block (16 bytes for RC5, 32 for
  RC6), setup followed by encryption of the block's bytes gives the same ciphertext
  bytes, and leaves the same table, on a big-endian host (where \<open>bswap_if_be\<close> swaps
  the bytes of every word it is given) and on a little-endian host (where it is the
  identity), whatever the array \<open>L\<close> held on either host.
\<close>

theorem endianness_independence:
  assumes "w = 64" and "0 \<le> r" and "r \<le> 255" and "r mod 4 = 0"
    and "0 \<le> b" and "b \<le> 255" and "nat b \<le> length key"
    and "int (length (cells rkey5)) = 2 * r + 2"
    and "int (length (cells rkey6)) = 2 * r + 4"
    and "16 \<le> length pt5" and "32 \<le> length pt6"
  shows "(\<exists>ct S'.
            (rc5_setup BigEndian junk rkey5 w r b key \<bind>
               (\<lambda>(rc, S). rc5_encrypt_bytes BigEndian S w r pt5)) = Some (ct, S') \<and>
            (rc5_setup LittleEndian junk' rkey5 w r b key \<bind>
               (\<lambda>(rc, S). rc5_encrypt_bytes LittleEndian S w r pt5)) = Some (ct, S') \<and>
            length ct = 16)
       \<and> (\<exists>ct S'.
            (rc6_setup BigEndian junk rkey6 w r b key \<bind>
               (\<lambda>(rc, S). rc6_encrypt_bytes BigEndian S w r pt6)) = Some (ct, S') \<and>
            (rc6_setup LittleEndian junk' rkey6 w r b key \<bind>
               (\<lambda>(rc, S). rc6_encrypt_bytes LittleEndian S w r pt6)) = Some (ct, S') \<and>
            length ct = 32)
       \<and> bswap_if_be BigEndian x = bswap x \<and> bswap_if_be LittleEndian x = x"
proof -
  have valid: "w = 64" "0 \<le> b" "b \<le> 255" "0 \<le> r" "r \<le> 255" "r mod 4 = 0"
    using assms by simp_all
  have rc5: "\<exists>ct S'.
            (rc5_setup BigEndian junk rkey5 w r b key \<bind>
               (\<lambda>(rc, S). rc5_encrypt_bytes BigEndian S w r pt5)) = Some (ct, S') \<and>
            (rc5_setup LittleEndian junk' rkey5 w r b key \<bind>
               (\<lambda>(rc, S). rc5_encrypt_bytes LittleEndian S w r pt5)) = Some (ct, S') \<and>
            length ct = 16"
  proof -
    define S1 where "S1 = rkey5\<lparr>cells := spec_key_schedule (nat (2 * r + 2)) (spec_key_words (nat b) key),
           reads := reads rkey5 @ map int [0..<nat (2 * r + 2) - 1] @
             map (\<lambda>t. int (t mod nat (2 * r + 2)))
               [0..<3 * max (spec_L_words (nat b)) (nat (2 * r + 2))],
           writes := writes rkey5 @ map int [0..<nat (2 * r + 2)] @
             map (\<lambda>t. int (t mod nat (2 * r + 2)))
               [0..<3 * max (spec_L_words (nat b)) (nat (2 * r + 2))]\<rparr>"
    have len: "2 * r + 2 \<le> int (length (cells S1))"
      using assms(2) by (simp add: S1_def)
    have s: "rc5_setup h junk'' rkey5 w r b key = Some (0, S1)" for h junk''
      unfolding rc5_setup_def S1_def
      by (rule setup_c_ok [OF valid]) (use assms in simp_all)
    obtain A B where e: "spec_rc5_encrypt (cells S1) (nat r)
        (word_le (take 8 (drop (8 * 0) pt5)), word_le (take 8 (drop (8 * 1) pt5))) = (A, B)"
      by (cases "spec_rc5_encrypt (cells S1) (nat r)
        (word_le (take 8 (drop (8 * 0) pt5)), word_le (take 8 (drop (8 * 1) pt5)))")
    have "rc5_encrypt_bytes h S1 w r pt5 =
          Some (bytes_le 8 A @ bytes_le 8 B, S1\<lparr>reads := reads S1 @ map int [0..<2 * nat r + 2]\<rparr>)"
      for h
      unfolding rc5_encrypt_bytes_eq [OF assms(2,4) len assms(10)] e prod.case ..
    then show ?thesis
      unfolding s Option.bind_lunit prod.case by simp
  qed
  have rc6: "\<exists>ct S'.
            (rc6_setup BigEndian junk rkey6 w r b key \<bind>
               (\<lambda>(rc, S). rc6_encrypt_bytes BigEndian S w r pt6)) = Some (ct, S') \<and>
            (rc6_setup LittleEndian junk' rkey6 w r b key \<bind>
               (\<lambda>(rc, S). rc6_encrypt_bytes LittleEndian S w r pt6)) = Some (ct, S') \<and>
            length ct = 32"
  proof -
    define S1 where "S1 = rkey6\<lparr>cells := spec_key_schedule (nat (2 * r + 4)) (spec_key_words (nat b) key),
           reads := reads rkey6 @ map int [0..<nat (2 * r + 4) - 1] @
             map (\<lambda>t. int (t mod nat (2 * r + 4)))
               [0..<3 * max (spec_L_words (nat b)) (nat (2 * r + 4))],
           writes := writes rkey6 @ map int [0..<nat (2 * r + 4)] @
             map (\<lambda>t. int (t mod nat (2 * r + 4)))
               [0..<3 * max (spec_L_words (nat b)) (nat (2 * r + 4))]\<rparr>"
    have len: "2 * r + 4 \<le> int (length (cells S1))"
      using assms(2) by (simp add: S1_def)
    have s: "rc6_setup h junk'' rkey6 w r b key = Some (0, S1)" for h junk''
      unfolding rc6_setup_def S1_def
      by (rule setup_c_ok [OF valid]) (use assms in simp_all)
    obtain A B C D where e: "spec_rc6_encrypt (cells S1) (nat r)
        (word_le (take 8 (drop (8 * 0) pt6)), word_le (take 8 (drop (8 * 1) pt6)),
         word_le (take 8 (drop (8 * 2) pt6)), word_le (take 8 (drop (8 * 3) pt6))) = (A, B, C, D)"
      by (cases "spec_rc6_encrypt (cells S1) (nat r)
        (word_le (take 8 (drop (8 * 0) pt6)), word_le (take 8 (drop (8 * 1) pt6)),
         word_le (take 8 (drop (8 * 2) pt6)), word_le (take 8 (drop (8 * 3) pt6)))")
    have "rc6_encrypt_bytes h S1 w r pt6 =
          Some (bytes_le 8 A @ bytes_le 8 B @ bytes_le 8 C @ bytes_le 8 D,
                S1\<lparr>reads := reads S1 @ map int [0..<2 * nat r + 4]\<rparr>)"
      for h
      unfolding rc6_encrypt_bytes_eq [OF assms(2,4) len assms(11)] e prod.case ..
    then show ?thesis
      unfolding s Option.bind_lunit prod.case by simp
  qed
  show ?thesis using rc5 rc6 by simp
qed

theorem endianness_independence_witness:
  "(64::int) = 64 \<and> (0::int) \<le> 4 \<and> (4::int) \<le> 255 \<and> (4::int) mod 4 = 0
   \<and> (0::int) \<le> 3 \<and> (3::int) \<le> 255 \<and> nat 3 \<le> length [1, 2, 3 :: byte]
   \<and> int (length (cells \<lparr>cells = replicate 10 0, reads = [], writes = []\<rparr>)) = 2 * 4 + 2
   \<and> int (length (cells \<lparr>cells = replicate 12 0, reads = [], writes = []\<rparr>)) = 2 * 4 + 4
   \<and> 16 \<le> length (replicate 16 (5 :: byte)) \<and> 32 \<le> length (replicate 32 (6 :: byte))
   \<and> (\<exists>ct S'.
        (rc5_setup BigEndian (\<lambda>_. 1) \<lparr>cells = replicate 10 0, reads = [], writes = []\<rparr>
           64 4 3 [1, 2, 3] \<bind>
             (\<lambda>(rc, S). rc5_encrypt_bytes BigEndian S 64 4 (replicate 16 5))) = Some (ct, S') \<and>
        (rc5_setup LittleEndian (\<lambda>_. 2) \<lparr>cells = replicate 10 0, reads = [], writes = []\<rparr>
           64 4 3 [1, 2, 3] \<bind>
             (\<lambda>(rc, S). rc5_encrypt_bytes LittleEndian S 64 4 (replicate 16 5))) = Some (ct, S'))
   \<and> (\<exists>ct S'.
        (rc6_setup BigEndian (\<lambda>_. 1) \<lparr>cells = replicate 12 0, reads = [], writes = []\<rparr>
           64 4 3 [1, 2, 3] \<bind>
             (\<lambda>(rc, S). rc6_encrypt_bytes BigEndian S 64 4 (replicate 32 6))) = Some (ct, S') \<and>
        (rc6_setup LittleEndian (\<lambda>_. 2) \<lparr>cells = replicate 12 0, reads = [], writes = []\<rparr>
           64 4 3 [1, 2, 3] \<bind>
             (\<lambda>(rc, S). rc6_encrypt_bytes LittleEndian S 64 4 (replicate 32 6))) = Some (ct, S'))"
  using endianness_independence [of 64 4 3 "[1, 2, 3]"
      "\<lparr>cells = replicate 10 0, reads = [], writes = []\<rparr>"
      "\<lparr>cells = replicate 12 0, reads = [], writes = []\<rparr>"
      "replicate 16 5" "replicate 32 6" "\<lambda>_. 1" "\<lambda>_. 2"]
  by auto

section \<open>Accesses to the table stay in bounds\<close>

text \<open>
  Claim C10. Under the documented preconditions (valid parameters, a table of exactly
  \<open>2r+2\<close> words for RC5 and \<open>2r+4\<close> words for RC6, a key of at least \<open>b\<close> bytes) no
  function leaves the table: each returns a result, which in the model means that every
  access was inside the array. The setup functions read and write the table at indices
  \<open>0, ..., S_words-1\<close> only. \<open>rc5_encrypt\<close> reads the indices \<open>0, 1, ..., 2r+1\<close> and
  \<open>rc6_encrypt\<close> the indices \<open>0, 1, ..., 2r+3\<close>, upwards, each once;
  \<open>rc5_decrypt\<close> reads \<open>2r+1, 2r, ..., 0\<close> and \<open>rc6_decrypt\<close> reads
  \<open>2r+3, 2r+2, ..., 0\<close>, downwards, each once; none of the four writes to the table.
\<close>

theorem table_accesses_in_bounds:
  assumes "w = 64" and "0 \<le> r" and "r \<le> 255" and "r mod 4 = 0"
    and "0 \<le> b" and "b \<le> 255" and "nat b \<le> length key"
    and "int (length (cells rkey5)) = 2 * r + 2"
    and "int (length (cells rkey6)) = 2 * r + 4"
  shows "(\<exists>S' rs ws. rc5_setup h junk rkey5 w r b key = Some (0, S') \<and>
            reads S' = reads rkey5 @ rs \<and> writes S' = writes rkey5 @ ws \<and>
            set ws = {0..<2 * r + 2} \<and> set rs \<subseteq> {0..<2 * r + 2})
       \<and> (\<exists>S' rs ws. rc6_setup h junk rkey6 w r b key = Some (0, S') \<and>
            reads S' = reads rkey6 @ rs \<and> writes S' = writes rkey6 @ ws \<and>
            set ws = {0..<2 * r + 4} \<and> set rs \<subseteq> {0..<2 * r + 4})
       \<and> (\<exists>c. rc5_encrypt h rkey5 w r p =
                 Some (c, rkey5\<lparr>reads := reads rkey5 @ map int [0..<2 * nat r + 2]\<rparr>))
       \<and> (\<exists>c. rc6_encrypt h rkey6 w r q =
                 Some (c, rkey6\<lparr>reads := reads rkey6 @ map int [0..<2 * nat r + 4]\<rparr>))
       \<and> (\<exists>p'. rc5_decrypt h rkey5 w r p =
                 Some (p', rkey5\<lparr>reads := reads rkey5 @ rev (map int [0..<2 * nat r + 2])\<rparr>))
       \<and> (\<exists>q'. rc6_decrypt h rkey6 w r q =
                 Some (q', rkey6\<lparr>reads := reads rkey6 @ rev (map int [0..<2 * nat r + 4])\<rparr>))"
proof -
  have valid: "w = 64" "0 \<le> b" "b \<le> 255" "0 \<le> r" "r \<le> 255" "r mod 4 = 0"
    using assms by simp_all
  have trace: "set (map int [0..<n] @ map (\<lambda>t. int (t mod n)) [0..<m]) = {0..<int n}"
    "set (map int [0..<n - 1] @ map (\<lambda>t. int (t mod n)) [0..<m]) \<subseteq> {0..<int n}"
    if "1 \<le> n" for n m
  proof -
    have "t mod n < n" for t using that by simp
    then have mixed: "int ` (\<lambda>t. t mod n) ` {0..<m} \<subseteq> {0..<int n}"
      by (auto simp: image_iff)
    have filled: "int ` {0..<n} = {0..<int n}"
    proof (intro set_eqI iffI)
      fix x assume "x \<in> int ` {0..<n}"
      then show "x \<in> {0..<int n}" by auto
    next
      fix x assume "x \<in> {0..<int n}"
      then have "nat x \<in> {0..<n}" "x = int (nat x)" by auto
      then show "x \<in> int ` {0..<n}" by (metis image_eqI)
    qed
    have "int ` {0..<n - 1} \<subseteq> int ` {0..<n}" by auto
    then show "set (map int [0..<n] @ map (\<lambda>t. int (t mod n)) [0..<m]) = {0..<int n}"
      "set (map int [0..<n - 1] @ map (\<lambda>t. int (t mod n)) [0..<m]) \<subseteq> {0..<int n}"
      using mixed filled by (auto simp: image_comp [symmetric] simp del: image_comp)
  qed
  have sched: "\<exists>S' rs ws. setup_c h junk S Sw w r b key = Some (0, S') \<and>
            reads S' = reads S @ rs \<and> writes S' = writes S @ ws \<and>
            set ws = {0..<Sw} \<and> set rs \<subseteq> {0..<Sw}"
    if "1 \<le> Sw" "int (length (cells S)) = Sw" for S Sw
  proof -
    have len: "length (cells S) = nat Sw" using that by simp
    have n: "1 \<le> nat Sw" "int (nat Sw) = Sw" using that by simp_all
    define m where "m = 3 * max (spec_L_words (nat b)) (nat Sw)"
    define rs where "rs = map int [0..<nat Sw - 1] @ map (\<lambda>t. int (t mod nat Sw)) [0..<m]"
    define ws where "ws = map int [0..<nat Sw] @ map (\<lambda>t. int (t mod nat Sw)) [0..<m]"
    define S' where "S' = S\<lparr>cells := spec_key_schedule (nat Sw) (spec_key_words (nat b) key),
                            reads := reads S @ rs, writes := writes S @ ws\<rparr>"
    have "setup_c h junk S Sw w r b key = Some (0, S')"
      unfolding setup_c_ok [OF valid that(1) len assms(7)] S'_def rs_def ws_def m_def ..
    moreover have "reads S' = reads S @ rs" "writes S' = writes S @ ws"
      by (simp_all add: S'_def)
    moreover have "set ws = {0..<Sw}" "set rs \<subseteq> {0..<Sw}"
      using trace [OF n(1), of m] unfolding n(2) rs_def ws_def by blast+
    ultimately show ?thesis by blast
  qed
  have s5: "\<exists>S' rs ws. rc5_setup h junk rkey5 w r b key = Some (0, S') \<and>
            reads S' = reads rkey5 @ rs \<and> writes S' = writes rkey5 @ ws \<and>
            set ws = {0..<2 * r + 2} \<and> set rs \<subseteq> {0..<2 * r + 2}"
    and s6: "\<exists>S' rs ws. rc6_setup h junk rkey6 w r b key = Some (0, S') \<and>
            reads S' = reads rkey6 @ rs \<and> writes S' = writes rkey6 @ ws \<and>
            set ws = {0..<2 * r + 4} \<and> set rs \<subseteq> {0..<2 * r + 4}"
    unfolding rc5_setup_def rc6_setup_def
    using sched [of "2 * r + 2" rkey5] sched [of "2 * r + 4" rkey6] assms(2,8,9)
    by simp_all
  have len: "2 * r + 2 \<le> int (length (cells rkey5))" "2 * r + 4 \<le> int (length (cells rkey6))"
    using assms by simp_all
  have e5: "\<exists>c. rc5_encrypt h rkey5 w r p =
                 Some (c, rkey5\<lparr>reads := reads rkey5 @ map int [0..<2 * nat r + 2]\<rparr>)"
    using rc5_encrypt_eq [OF assms(2,4) len(1), of h w p] by (rule exI)
  have e6: "\<exists>c. rc6_encrypt h rkey6 w r q =
                 Some (c, rkey6\<lparr>reads := reads rkey6 @ map int [0..<2 * nat r + 4]\<rparr>)"
    using rc6_encrypt_eq [OF assms(2,4) len(2), of h w q] by (rule exI)
  have d5: "\<exists>p'. rc5_decrypt h rkey5 w r p =
                 Some (p', rkey5\<lparr>reads := reads rkey5 @ rev (map int [0..<2 * nat r + 2])\<rparr>)"
    using rc5_decrypt_eq [OF assms(2,4) len(1), of h w p] by (rule exI)
  have d6: "\<exists>q'. rc6_decrypt h rkey6 w r q =
                 Some (q', rkey6\<lparr>reads := reads rkey6 @ rev (map int [0..<2 * nat r + 4])\<rparr>)"
    using rc6_decrypt_eq [OF assms(2,4) len(2), of h w q] by (rule exI)
  show ?thesis
    using s5 s6 e5 e6 d5 d6 by (intro conjI)
qed

theorem table_accesses_in_bounds_witness:
  "(64::int) = 64 \<and> (0::int) \<le> 4 \<and> (4::int) \<le> 255 \<and> (4::int) mod 4 = 0
   \<and> (0::int) \<le> 3 \<and> (3::int) \<le> 255 \<and> nat 3 \<le> length [1, 2, 3 :: byte]
   \<and> int (length (cells \<lparr>cells = replicate 10 0, reads = [], writes = []\<rparr>)) = 2 * 4 + 2
   \<and> int (length (cells \<lparr>cells = replicate 12 0, reads = [], writes = []\<rparr>)) = 2 * 4 + 4
   \<and> (\<exists>S'. rc5_setup BigEndian (\<lambda>_. 9) \<lparr>cells = replicate 10 0, reads = [], writes = []\<rparr>
              64 4 3 [1, 2, 3] = Some (0, S') \<and> set (writes S') = {0..<10} \<and> set (reads S') \<subseteq> {0..<10})
   \<and> (\<exists>c. rc5_encrypt BigEndian \<lparr>cells = replicate 10 0, reads = [], writes = []\<rparr> 64 4 (5, 6) =
          Some (c, \<lparr>cells = replicate 10 0, reads = [0, 1, 2, 3, 4, 5, 6, 7, 8, 9], writes = []\<rparr>))
   \<and> (\<exists>p'. rc5_decrypt BigEndian \<lparr>cells = replicate 10 0, reads = [], writes = []\<rparr> 64 4 (5, 6) =
          Some (p', \<lparr>cells = replicate 10 0, reads = [9, 8, 7, 6, 5, 4, 3, 2, 1, 0], writes = []\<rparr>))
   \<and> (\<exists>c. rc6_encrypt BigEndian \<lparr>cells = replicate 12 0, reads = [], writes = []\<rparr> 64 4
              (5, 6, 7, 8) =
          Some (c, \<lparr>cells = replicate 12 0,
                    reads = [0, 1, 2, 3, 4, 5, 6, 7, 8, 9, 10, 11], writes = []\<rparr>))
   \<and> (\<exists>q'. rc6_decrypt BigEndian \<lparr>cells = replicate 12 0, reads = [], writes = []\<rparr> 64 4
              (5, 6, 7, 8) =
          Some (q', \<lparr>cells = replicate 12 0,
                     reads = [11, 10, 9, 8, 7, 6, 5, 4, 3, 2, 1, 0], writes = []\<rparr>))"
proof -
  have 10: "map int [0..<10] = [0, 1, 2, 3, 4, 5, 6, 7, 8, 9]"
    and 12: "map int [0..<12] = [0, 1, 2, 3, 4, 5, 6, 7, 8, 9, 10, 11]"
    by (simp_all add: upt_conv_Cons)
  show ?thesis
    using table_accesses_in_bounds [of 64 4 3 "[1, 2, 3]"
      "\<lparr>cells = replicate 10 0, reads = [], writes = []\<rparr>"
      "\<lparr>cells = replicate 12 0, reads = [], writes = []\<rparr>"
      BigEndian "\<lambda>_. 9" "(5, 6)" "(5, 6, 7, 8)"]
    by (simp add: 10 12)
qed

end
